theory Spec2Isabelle
  imports Main "HOL-Library.Word" "HOL-Library.List_Lexorder"
begin

unbundle bit_operations_syntax

section \<open>Data model\<close>

type_synonym uint8_t = "8 word"

text \<open>
  Modelled from the spec: the header \<open>ow/ow.h\<close> is not part of the sources. The result
  type \<open>owr_t\<close> is the closed set of outcomes of the spec (OK, generic error, presence
  failure, tx/rx failure, baudrate failure, no device), and the ROM commands are the wire
  constants the spec lists (SEARCH_ROM 0xF0, ALARM_SEARCH 0xEC, MATCH_ROM 0x55,
  SKIP_ROM 0xCC).
\<close>

datatype owr_t = owOK | owERR | owERRPRESENCE | owERRTXRX | owERRBAUD | owERRNODEV

definition OW_CMD_SEARCHROM :: uint8_t where "OW_CMD_SEARCHROM = 0xF0"
definition OW_CMD_ALARMSEARCH :: uint8_t where "OW_CMD_ALARMSEARCH = 0xEC"
definition OW_CMD_MATCHROM :: uint8_t where "OW_CMD_MATCHROM = 0x55"
definition OW_CMD_SKIPROM :: uint8_t where "OW_CMD_SKIPROM = 0xCC"

text \<open>The internal macros of \<open>ow.c\<close>.\<close>

definition OW_FIRST_DEV :: uint8_t where "OW_FIRST_DEV = 0xFF"
definition OW_LAST_DEV :: uint8_t where "OW_LAST_DEV = 0x00"
definition OW_RESET_BYTE :: uint8_t where "OW_RESET_BYTE = 0xF0"

text \<open>
  The low-level driver \<open>ow_ll_drv_t\<close> is a table of functions supplied by the caller.
  Its two operations used on the bus are parameters of the model. They act on the state
  \<open>'d\<close> of the UART and of whatever is wired to it (the C code reaches it through the
  opaque \<open>arg\<close>). \<open>tx_rx drv tx d\<close> exchanges the octets \<open>tx\<close> (the C arguments
  \<open>tx_buf\<close> and \<open>len\<close>); its second result \<open>rx\<close> gives, for every \<open>i < len\<close>, the content
  \<open>rx i\<close> of \<open>rx_buf[i]\<close> when the call returns.
\<close>

record 'd ow_ll_drv_t =
  set_baudrate :: "nat \<Rightarrow> 'd \<Rightarrow> bool \<times> 'd"
  tx_rx :: "uint8_t list \<Rightarrow> 'd \<Rightarrow> bool \<times> (nat \<Rightarrow> uint8_t) \<times> 'd"

text \<open>A call of the driver as the transport observes it.\<close>

datatype ll_call = SetBaudrate nat | TxRx "uint8_t list"

text \<open>
  The session \<open>ow_t\<close>: the working ROM buffer \<open>rom.rom\<close> (8 octets), the discrepancy
  marker, and the driver argument. The field \<open>calls\<close> is not in the C structure: it
  records the driver calls issued so far, in order, so that statements about what the
  transport saw can be made.
\<close>

record 'd ow_t =
  rom :: "uint8_t list"
  disrepancy :: uint8_t
  arg :: 'd
  calls :: "ll_call list"

definition ll_set_baudrate :: "'d ow_ll_drv_t \<Rightarrow> nat \<Rightarrow> 'd ow_t \<Rightarrow> bool \<times> 'd ow_t" where
  "ll_set_baudrate drv baud ow =
     (case set_baudrate drv baud (arg ow) of
        (ok, d) \<Rightarrow> (ok, ow\<lparr>arg := d, calls := calls ow @ [SetBaudrate baud]\<rparr>))"

definition ll_tx_rx ::
  "'d ow_ll_drv_t \<Rightarrow> uint8_t list \<Rightarrow> 'd ow_t \<Rightarrow> bool \<times> (nat \<Rightarrow> uint8_t) \<times> 'd ow_t" where
  "ll_tx_rx drv tx ow =
     (case tx_rx drv tx (arg ow) of
        (ok, rx, d) \<Rightarrow> (ok, rx, ow\<lparr>arg := d, calls := calls ow @ [TxRx tx]\<rparr>))"

section \<open>Bit and byte engine\<close>

text \<open>
  \<open>send_bit\<close>. The second component of the result is the value left in \<open>*btr\<close> when
  \<open>btr\<close> is not \<open>NULL\<close>: 0 when the exchange fails, the sampled bit otherwise. A caller
  that passes \<open>NULL\<close> ignores it.
\<close>

definition send_bit :: "'d ow_ll_drv_t \<Rightarrow> uint8_t \<Rightarrow> 'd ow_t \<Rightarrow> owr_t \<times> uint8_t \<times> 'd ow_t" where
  "send_bit drv btw ow =
     (let btw' = (if btw > 0 then 0xFF else 0x00) in
      case ll_tx_rx drv [btw'] ow of
        (ok, rx, ow') \<Rightarrow>
          if \<not> ok then (owERRTXRX, 0, ow')
          else (owOK, (if rx 0 = 0xFF then 1 else 0), ow'))"

definition ow_reset_raw :: "'d ow_ll_drv_t \<Rightarrow> 'd ow_t \<Rightarrow> owr_t \<times> 'd ow_t" where
  "ow_reset_raw drv ow =
     (case ll_set_baudrate drv 9600 ow of
        (ok1, ow1) \<Rightarrow>
          if \<not> ok1 then (owERRBAUD, ow1)
          else (case ll_tx_rx drv [OW_RESET_BYTE] ow1 of
            (ok2, rx, ow2) \<Rightarrow>
              if \<not> ok2 then (owERRTXRX, ow2)
              else (case ll_set_baudrate drv 115200 ow2 of
                (ok3, ow3) \<Rightarrow>
                  if \<not> ok3 then (owERRBAUD, ow3)
                  else if rx 0 = 0 \<or> rx 0 = OW_RESET_BYTE then (owERRPRESENCE, ow3)
                  else (owOK, ow3))))"

text \<open>
  \<open>ow_write_byte_ex_raw\<close>. \<open>tr_prepare\<close> is the first loop (the eight octets to send),
  \<open>tr_collect\<close> the second (the byte assembled from the eight octets received, which
  the transport left in the same buffer). The second component of the result is the
  value left in \<open>*br\<close> when \<open>br\<close> is not \<open>NULL\<close>: 0 when the exchange fails.
\<close>

definition tr_prepare :: "uint8_t \<Rightarrow> uint8_t list" where
  "tr_prepare btw = map (\<lambda>i. if btw AND push_bit i 1 \<noteq> 0 then 0xFF else 0x00) [0..<8]"

definition tr_collect :: "(nat \<Rightarrow> uint8_t) \<Rightarrow> uint8_t" where
  "tr_collect tr = foldl (\<lambda>r i. if tr i = 0xFF then r OR push_bit i 0x01 else r) 0 [0..<8]"

definition ow_write_byte_ex_raw ::
  "'d ow_ll_drv_t \<Rightarrow> uint8_t \<Rightarrow> 'd ow_t \<Rightarrow> owr_t \<times> uint8_t \<times> 'd ow_t" where
  "ow_write_byte_ex_raw drv btw ow =
     (case ll_tx_rx drv (tr_prepare btw) ow of
        (ok, tr, ow') \<Rightarrow>
          if \<not> ok then (owERRTXRX, 0, ow')
          else (owOK, tr_collect tr, ow'))"

definition ow_read_byte_ex_raw :: "'d ow_ll_drv_t \<Rightarrow> 'd ow_t \<Rightarrow> owr_t \<times> uint8_t \<times> 'd ow_t" where
  "ow_read_byte_ex_raw drv ow = ow_write_byte_ex_raw drv 0xFF ow"

definition ow_read_bit_ex_raw :: "'d ow_ll_drv_t \<Rightarrow> 'd ow_t \<Rightarrow> owr_t \<times> uint8_t \<times> 'd ow_t" where
  "ow_read_bit_ex_raw drv ow = send_bit drv 1 ow"

section \<open>CRC\<close>

text \<open>
  \<open>ow_crc\<close>. \<open>crc_bits\<close> is the inner loop over the eight bits of one input octet,
  \<open>crc_bytes\<close> the outer loop over the buffer. The argument is \<open>None\<close> for a \<open>NULL\<close>
  pointer, and otherwise the \<open>len\<close> octets of the buffer.
\<close>

fun crc_bits :: "nat \<Rightarrow> uint8_t \<Rightarrow> uint8_t \<Rightarrow> uint8_t" where
  "crc_bits 0 crc inbyte = crc"
| "crc_bits (Suc i) crc inbyte =
     (let mix = (crc XOR inbyte) AND 0x01;
          crc1 = drop_bit 1 crc;
          crc2 = (if mix > 0 then crc1 XOR 0x8C else crc1)
      in crc_bits i crc2 (drop_bit 1 inbyte))"

fun crc_bytes :: "uint8_t \<Rightarrow> uint8_t list \<Rightarrow> uint8_t" where
  "crc_bytes crc [] = crc"
| "crc_bytes crc (inbyte # d) = crc_bytes (crc_bits 8 crc inbyte) d"

definition ow_crc :: "uint8_t list option \<Rightarrow> uint8_t" where
  "ow_crc inp =
     (case inp of
        None \<Rightarrow> 0
      | Some d \<Rightarrow> if length d = 0 then 0 else crc_bytes 0 d)"

section \<open>ROM search\<close>

definition ow_search_reset_raw :: "'d ow_t \<Rightarrow> owr_t \<times> 'd ow_t" where
  "ow_search_reset_raw ow = (owOK, ow\<lparr>disrepancy := OW_FIRST_DEV\<rparr>)"

text \<open>
  How a piece of the search loop is left: by falling through to the next iteration
  (\<open>Continue\<close>), by \<open>goto out\<close>, or by \<open>return\<close>. The first two carry the local variables
  \<open>id_bit_number\<close> and \<open>next_disrepancy\<close>.
\<close>

datatype 'd loop_exit =
    Continue nat uint8_t "'d ow_t"
  | GotoOut nat uint8_t "'d ow_t"
  | Return owr_t "'d ow_t"

text \<open>
  \<open>search_bit\<close> is the body of the inner loop of \<open>ow_search_with_command_raw\<close>: one ROM
  bit. \<open>idx\<close> is the position of the pointer \<open>id\<close> in the ROM buffer
  (\<open>id = ow->rom.rom + idx\<close>). The counter \<open>id_bit_number\<close> is a natural number: in
  the C code it is an octet that runs from 64 down to 0 and never wraps.
\<close>

definition search_bit ::
  "'d ow_ll_drv_t \<Rightarrow> nat \<Rightarrow> nat \<Rightarrow> uint8_t \<Rightarrow> 'd ow_t \<Rightarrow> 'd loop_exit" where
  "search_bit drv idx id_bit_number next_disrepancy ow =
     (case send_bit drv 1 ow of
        (res1, b, ow1) \<Rightarrow>
          if res1 \<noteq> owOK then Return owERRTXRX ow1
          else (case send_bit drv 1 ow1 of
            (res2, b_cpl, ow2) \<Rightarrow>
              if res2 \<noteq> owOK then Return owERRTXRX ow2
              else if b \<noteq> 0 \<and> b_cpl \<noteq> 0 then GotoOut id_bit_number next_disrepancy ow2
              else
                let force = (b = 0 \<and> b_cpl = 0 \<and>
                       (id_bit_number < unat (disrepancy ow2) \<or>
                        ((rom ow2 ! idx) AND 0x01 \<noteq> 0 \<and>
                         unat (disrepancy ow2) \<noteq> id_bit_number)));
                    b' = (if force then 1 else b);
                    next_disrepancy' =
                      (if force then of_nat id_bit_number else next_disrepancy)
                in (case send_bit drv b' ow2 of
                  (res3, btr, ow3) \<Rightarrow>
                    Continue id_bit_number next_disrepancy'
                      (ow3\<lparr>rom := (rom ow3)
                         [idx := drop_bit 1 (rom ow3 ! idx) OR push_bit 7 b']\<rparr>))))"

text \<open>The inner loop: \<open>j\<close> counts the bits left in the current ROM octet.\<close>

fun search_byte ::
  "'d ow_ll_drv_t \<Rightarrow> nat \<Rightarrow> nat \<Rightarrow> nat \<Rightarrow> uint8_t \<Rightarrow> 'd ow_t \<Rightarrow> 'd loop_exit" where
  "search_byte drv idx 0 id_bit_number next_disrepancy ow =
     Continue id_bit_number next_disrepancy ow"
| "search_byte drv idx (Suc j) id_bit_number next_disrepancy ow =
     (case search_bit drv idx id_bit_number next_disrepancy ow of
        Continue n next_disrepancy' ow' \<Rightarrow>
          search_byte drv idx j (n - 1) next_disrepancy' ow'
      | GotoOut n next_disrepancy' ow' \<Rightarrow> GotoOut n next_disrepancy' ow'
      | Return res ow' \<Rightarrow> Return res ow')"

text \<open>The outer loop: one ROM octet per iteration, while \<open>id_bit_number > 0\<close>.\<close>

function search_rom ::
  "'d ow_ll_drv_t \<Rightarrow> nat \<Rightarrow> nat \<Rightarrow> uint8_t \<Rightarrow> 'd ow_t \<Rightarrow> 'd loop_exit" where
  "search_rom drv idx id_bit_number next_disrepancy ow =
     (if id_bit_number > 0 then
        (case search_byte drv idx 8 id_bit_number next_disrepancy ow of
           Continue n next_disrepancy' ow' \<Rightarrow>
             search_rom drv (idx + 1) n next_disrepancy' ow'
         | GotoOut n next_disrepancy' ow' \<Rightarrow> GotoOut n next_disrepancy' ow'
         | Return res ow' \<Rightarrow> Return res ow')
      else Continue id_bit_number next_disrepancy ow)"
  by pat_completeness auto
termination
proof (relation "measure (\<lambda>(drv, idx, n, next_d, ow). n)")
  show "wf (measure (\<lambda>(drv :: 'd ow_ll_drv_t, idx :: nat, n :: nat, next_d :: uint8_t,
                        ow :: 'd ow_t). n))"
    by simp
next
  fix drv :: "'d ow_ll_drv_t" and idx n :: nat and next_d :: uint8_t and ow :: "'d ow_t"
    and n' :: nat and next_d' :: uint8_t and ow' :: "'d ow_t"
  assume pos: "0 < n"
    and byte: "search_byte drv idx 8 n next_d ow = Continue n' next_d' ow'"
  have dec: "search_byte drv idx j m nd s = Continue m' nd' s' \<Longrightarrow> m' = m - j"
    for j m nd s m' nd' s'
  proof (induction j arbitrary: m nd s)
    case 0
    then show ?case by simp
  next
    case (Suc j)
    from Suc.prems obtain n1 nd1 s1
      where bit: "search_bit drv idx m nd s = Continue n1 nd1 s1"
        and rest: "search_byte drv idx j (n1 - 1) nd1 s1 = Continue m' nd' s'"
      by (auto split: loop_exit.splits)
    from bit have "n1 = m"
      by (auto simp: search_bit_def Let_def split: prod.splits if_splits)
    with Suc.IH [OF rest] show ?case by simp
  qed
  from dec [OF byte] pos
  show "((drv, idx + 1, n', next_d', ow'), (drv, idx, n, next_d, ow))
          \<in> measure (\<lambda>(drv, idx, n, next_d, ow). n)"
    by simp
qed

text \<open>
  \<open>ow_search_with_command_raw\<close>. The second component of the result is what the call
  stored in \<open>*rom_id\<close>: \<open>None\<close> when it returned without writing it. \<open>search_out\<close> is the
  code after the label \<open>out\<close>.
\<close>

definition search_out ::
  "nat \<Rightarrow> uint8_t \<Rightarrow> 'd ow_t \<Rightarrow> owr_t \<times> uint8_t list option \<times> 'd ow_t" where
  "search_out id_bit_number next_disrepancy ow =
     (let ow' = ow\<lparr>disrepancy := next_disrepancy\<rparr>
      in (if id_bit_number = 0 then owOK else owERRNODEV, Some (rom ow'), ow'))"

definition ow_search_with_command_raw ::
  "'d ow_ll_drv_t \<Rightarrow> uint8_t \<Rightarrow> 'd ow_t \<Rightarrow> owr_t \<times> uint8_t list option \<times> 'd ow_t" where
  "ow_search_with_command_raw drv cmd ow =
     (if disrepancy ow = 0 then (owERRNODEV, None, snd (ow_search_reset_raw ow))
      else (case ow_reset_raw drv ow of
        (res, ow1) \<Rightarrow>
          if res \<noteq> owOK then (res, None, ow1)
          else (case ow_write_byte_ex_raw drv cmd ow1 of
            (res_w, br, ow2) \<Rightarrow>
              (case search_rom drv 0 64 OW_LAST_DEV ow2 of
                 Continue n next_disrepancy ow3 \<Rightarrow> search_out n next_disrepancy ow3
               | GotoOut n next_disrepancy ow3 \<Rightarrow> search_out n next_disrepancy ow3
               | Return res' ow3 \<Rightarrow> (res', None, ow3)))))"

definition ow_search_raw ::
  "'d ow_ll_drv_t \<Rightarrow> 'd ow_t \<Rightarrow> owr_t \<times> uint8_t list option \<times> 'd ow_t" where
  "ow_search_raw drv ow = ow_search_with_command_raw drv OW_CMD_SEARCHROM ow"

section \<open>Batch search\<close>

text \<open>
  The visitor of \<open>ow_search_with_command_callback\<close>. It receives the session, the ROM
  (\<open>None\<close> for a \<open>NULL\<close> pointer), the index and the user argument, whose state is \<open>'u\<close>.
  The mutex of \<open>ow_protect\<close> and \<open>ow_unprotect\<close> is outside the model: without an
  operating system both only return \<open>owOK\<close>.
\<close>

type_synonym ('d, 'u) ow_search_cb_fn =
  "'d ow_t \<Rightarrow> uint8_t list option \<Rightarrow> nat \<Rightarrow> 'u \<Rightarrow> owr_t \<times> 'd ow_t \<times> 'u"

text \<open>
  The loop of \<open>ow_search_with_command_callback\<close>, entered after \<open>ow_search_reset_raw\<close>
  has set \<open>res\<close> to \<open>owOK\<close>. Nothing bounds the number of iterations, so the result is
  \<open>None\<close> when the loop does not end. It returns \<open>res\<close>, \<open>i\<close>, the session and the user
  state.
\<close>

partial_function (option) search_cb_loop ::
  "'d ow_ll_drv_t \<Rightarrow> uint8_t \<Rightarrow> ('d, 'u) ow_search_cb_fn \<Rightarrow> nat \<Rightarrow> 'd ow_t \<Rightarrow> 'u
     \<Rightarrow> (owr_t \<times> nat \<times> 'd ow_t \<times> 'u) option" where
  "search_cb_loop drv cmd func i ow u =
     (case ow_search_with_command_raw drv cmd ow of
        (res, rom_id, ow1) \<Rightarrow>
          if res \<noteq> owOK then Some (res, i, ow1, u)
          else (case func ow1 rom_id i u of
            (res_f, ow2, u2) \<Rightarrow>
              if res_f \<noteq> owOK then Some (res_f, i, ow2, u2)
              else search_cb_loop drv cmd func (i + 1) ow2 u2))"

text \<open>
  \<open>ow_search_with_command_callback\<close> returns its result, the value stored in
  \<open>*roms_found\<close>, the session and the user state.
\<close>

definition ow_search_with_command_callback ::
  "'d ow_ll_drv_t \<Rightarrow> uint8_t \<Rightarrow> ('d, 'u) ow_search_cb_fn \<Rightarrow> 'd ow_t \<Rightarrow> 'u
     \<Rightarrow> (owr_t \<times> nat \<times> 'd ow_t \<times> 'u) option" where
  "ow_search_with_command_callback drv cmd func ow u =
     (case search_cb_loop drv cmd func 0 (snd (ow_search_reset_raw ow)) u of
        None \<Rightarrow> None
      | Some (res, i, ow1, u1) \<Rightarrow>
          (case func ow1 None i u1 of
             (res_f, ow2, u2) \<Rightarrow>
               Some (if res = owERRNODEV then owOK else res, i, ow2, u2)))"

definition ow_search_with_callback ::
  "'d ow_ll_drv_t \<Rightarrow> ('d, 'u) ow_search_cb_fn \<Rightarrow> 'd ow_t \<Rightarrow> 'u
     \<Rightarrow> (owr_t \<times> nat \<times> 'd ow_t \<times> 'u) option" where
  "ow_search_with_callback drv func ow u =
     ow_search_with_command_callback drv OW_CMD_SEARCHROM func ow u"

text \<open>
  The loop of \<open>ow_search_devices_with_command_raw\<close>. The array \<open>rom_id_arr\<close> is a list
  of ROMs and \<open>rom_len\<close> is its length. A search call writes the slot \<open>rom_id_arr[cnt]\<close>
  whenever it writes its out-parameter, also when it then fails.
\<close>

function search_devices_loop ::
  "'d ow_ll_drv_t \<Rightarrow> uint8_t \<Rightarrow> nat \<Rightarrow> owr_t \<Rightarrow> uint8_t list list \<Rightarrow> 'd ow_t
     \<Rightarrow> owr_t \<times> nat \<times> uint8_t list list \<times> 'd ow_t" where
  "search_devices_loop drv cmd cnt res rom_id_arr ow =
     (if cnt < length rom_id_arr then
        (case ow_search_with_command_raw drv cmd ow of
           (res', rom_id, ow') \<Rightarrow>
             let arr' = (case rom_id of None \<Rightarrow> rom_id_arr
                         | Some r \<Rightarrow> rom_id_arr[cnt := r])
             in if res' \<noteq> owOK then (res', cnt, arr', ow')
                else search_devices_loop drv cmd (cnt + 1) res' arr' ow')
      else (res, cnt, rom_id_arr, ow))"
  by pat_completeness auto
termination
  by (relation "measure (\<lambda>(drv, cmd, cnt, res, rom_id_arr, ow). length rom_id_arr - cnt)")
     (auto split: option.splits)

text \<open>
  \<open>ow_search_devices_with_command_raw\<close> returns its result, the value stored in
  \<open>*roms_found\<close>, the array and the session.
\<close>

definition ow_search_devices_with_command_raw ::
  "'d ow_ll_drv_t \<Rightarrow> uint8_t \<Rightarrow> uint8_t list list \<Rightarrow> 'd ow_t
     \<Rightarrow> owr_t \<times> nat \<times> uint8_t list list \<times> 'd ow_t" where
  "ow_search_devices_with_command_raw drv cmd rom_id_arr ow =
     (case ow_search_reset_raw ow of
        (res0, ow0) \<Rightarrow>
          (case search_devices_loop drv cmd 0 res0 rom_id_arr ow0 of
             (res, cnt, arr, ow1) \<Rightarrow>
               (if res = owERRNODEV \<and> cnt > 0 then owOK else res, cnt, arr, ow1)))"

definition ow_search_devices_raw ::
  "'d ow_ll_drv_t \<Rightarrow> uint8_t list list \<Rightarrow> 'd ow_t
     \<Rightarrow> owr_t \<times> nat \<times> uint8_t list list \<times> 'd ow_t" where
  "ow_search_devices_raw drv rom_id_arr ow =
     ow_search_devices_with_command_raw drv OW_CMD_SEARCHROM rom_id_arr ow"

section \<open>Transports\<close>

text \<open>The receive buffer holding the octets \<open>rs\<close>.\<close>

definition rx_buf :: "uint8_t list \<Rightarrow> nat \<Rightarrow> uint8_t" where
  "rx_buf rs i = (if i < length rs then rs ! i else 0)"

subsection \<open>A scripted transport\<close>

text \<open>
  A test double: the state is the list of replies still to give. A call takes the next
  reply; a call that finds no reply of its kind fails.
\<close>

datatype reply = BaudReply bool | XferReply bool "uint8_t list"

definition script_drv :: "reply list ow_ll_drv_t" where
  "script_drv =
     \<lparr>set_baudrate = (\<lambda>baud s. case s of BaudReply ok # s' \<Rightarrow> (ok, s') | _ \<Rightarrow> (False, s)),
      tx_rx = (\<lambda>tx s. case s of XferReply ok rs # s' \<Rightarrow> (ok, rx_buf rs, s')
                       | _ \<Rightarrow> (False, rx_buf tx, s))\<rparr>"

subsection \<open>A simulated 1-Wire bus\<close>

text \<open>
  Modelled from the spec: the UART driver and the slaves behind it are external to the
  repository. This transport simulates a bus with the slaves \<open>devices\<close>, each a 64-bit ROM
  code whose bit \<open>i\<close> is the \<open>i\<close>-th bit on the wire (bit 0 of octet 0 first), so that
  the code is the ROM read as a little-endian integer. One UART octet is one 1-Wire time
  slot:
  \<^item> at 9600 baud the octet 0xF0 is a reset pulse: every slave listens for a command
    again and answers with a presence pulse, which pulls bit 4 of the sampled octet low;
    on an empty bus the octet comes back as sent;
  \<^item> at 115200 baud the octet 0xFF is a write-1 or read slot and any other octet writes 0.
    After a reset the slaves take eight slots as the command octet, least significant
    bit first. After the command SEARCH_ROM each ROM bit takes three slots: the slaves
    still taking part send their bit, then its complement (a slave that sends 0 holds
    the line low, and the line is the AND of all senders), then the master writes the
    bit it chose and the slaves with the other bit drop out until the next reset.
\<close>

datatype bus_mode = Idle | Command nat uint8_t | Search nat nat

record bus =
  devices :: "64 word list"
  active :: "64 word list"
  baud :: nat
  mode :: bus_mode

definition bus_reset :: "uint8_t \<Rightarrow> bus \<Rightarrow> uint8_t \<times> bus" where
  "bus_reset tx s =
     (if tx = 0xF0 then
        ((if devices s = [] then tx else tx AND 0xEF),
         s\<lparr>active := devices s, mode := Command 0 0\<rparr>)
      else (tx, s))"

definition bus_slot :: "uint8_t \<Rightarrow> bus \<Rightarrow> uint8_t \<times> bus" where
  "bus_slot tx s =
     (if baud s = 9600 then bus_reset tx s
      else (case mode s of
        Idle \<Rightarrow> (tx, s)
      | Command k acc \<Rightarrow>
          (let acc' = (if tx = 0xFF then acc OR push_bit k 1 else acc)
           in (tx, s\<lparr>mode := (if k < 7 then Command (k + 1) acc'
                              else if acc' = 0xF0 then Search 0 0 else Idle)\<rparr>))
      | Search i ph \<Rightarrow>
          if ph = 0 then
            ((if \<forall>d \<in> set (active s). bit d i then tx else tx AND 0xF8),
             s\<lparr>mode := Search i 1\<rparr>)
          else if ph = 1 then
            ((if \<forall>d \<in> set (active s). \<not> bit d i then tx else tx AND 0xF8),
             s\<lparr>mode := Search i 2\<rparr>)
          else
            (tx, s\<lparr>active := filter (\<lambda>d. bit d i = (tx = 0xFF)) (active s),
                   mode := (if i + 1 < 64 then Search (i + 1) 0 else Idle)\<rparr>)))"

fun bus_slots :: "uint8_t list \<Rightarrow> bus \<Rightarrow> uint8_t list \<times> bus" where
  "bus_slots [] s = ([], s)"
| "bus_slots (t # ts) s =
     (case bus_slot t s of
        (r, s1) \<Rightarrow> (case bus_slots ts s1 of (rs, s2) \<Rightarrow> (r # rs, s2)))"

definition bus_drv :: "bus ow_ll_drv_t" where
  "bus_drv =
     \<lparr>set_baudrate = (\<lambda>b s. (True, s\<lparr>baud := b\<rparr>)),
      tx_rx = (\<lambda>tx s. case bus_slots tx s of (rs, s') \<Rightarrow> (True, rx_buf rs, s'))\<rparr>"

text \<open>The ROM octets of a 64-bit code, and the code of eight ROM octets.\<close>

definition rom_of :: "64 word \<Rightarrow> uint8_t list" where
  "rom_of w = map (\<lambda>k. ucast (drop_bit (8 * k) w)) [0..<8]"

definition le64 :: "uint8_t list \<Rightarrow> 64 word" where
  "le64 r = foldr (\<lambda>x w. ucast x OR push_bit 8 w) r 0"

text \<open>Sessions for the two transports, as \<open>ow_init\<close> and \<open>ow_search_reset\<close> leave them.\<close>

definition script_session :: "reply list \<Rightarrow> reply list ow_t" where
  "script_session rs = \<lparr>rom = replicate 8 0, disrepancy = OW_FIRST_DEV, arg = rs, calls = []\<rparr>"

definition bus_session :: "64 word list \<Rightarrow> bus ow_t" where
  "bus_session ds =
     \<lparr>rom = replicate 8 0, disrepancy = OW_FIRST_DEV,
      arg = \<lparr>devices = ds, active = [], baud = 115200, mode = Idle\<rparr>, calls = []\<rparr>"

text \<open>
  Sessions on the scripted transport for single steps of the search: \<open>step_session\<close> in
  the middle of a pass, with the ROM of an earlier pass in the buffer and the pointer
  \<open>id\<close> at octet 1; \<open>stale_session\<close> before a pass that \<open>abort_script\<close> lets read one
  discrepancy and then two 1 bits.
\<close>

definition step_session :: "uint8_t \<Rightarrow> uint8_t \<Rightarrow> reply list \<Rightarrow> reply list ow_t" where
  "step_session d x rs =
     \<lparr>rom = [0x10, x, 0, 0, 0, 0, 0, 0], disrepancy = d, arg = rs, calls = []\<rparr>"

definition abort_script :: "reply list" where
  "abort_script =
     [BaudReply True, XferReply True [0x50], BaudReply True,
      XferReply True [0x00, 0x00, 0x00, 0x00, 0xFF, 0xFF, 0xFF, 0xFF],
      XferReply True [0x00], XferReply True [0x00], XferReply True [0xFF],
      XferReply True [0xFF], XferReply True [0xFF]]"

definition stale_session :: "reply list \<Rightarrow> ll_call list \<Rightarrow> reply list ow_t" where
  "stale_session rs cs =
     \<lparr>rom = [0x2A, 0x11, 0x22, 0x33, 0x44, 0x55, 0x66, 0x77], disrepancy = OW_FIRST_DEV,
      arg = rs, calls = cs\<rparr>"

text \<open>A visitor that counts its calls and always returns \<open>owOK\<close>.\<close>

definition count_visitor :: "('d, nat) ow_search_cb_fn" where
  "count_visitor ow rom_id i u = (owOK, ow, u + 1)"

section \<open>A whole enumeration\<close>

text \<open>
  A visitor that appends every ROM it is given to the list that is its user argument, and
  \<open>search_all\<close>: a search reset followed by search calls as long as they return \<open>owOK\<close>
  (the loop of \<open>ow_search_with_command_callback\<close> with that visitor). It returns the
  result of the last search call and the ROMs returned before it, in order.
\<close>

definition collect_visitor :: "('d, uint8_t list list) ow_search_cb_fn" where
  "collect_visitor ow rom_id i u = (owOK, ow, (case rom_id of None \<Rightarrow> u | Some r \<Rightarrow> u @ [r]))"

definition search_all :: "'d ow_ll_drv_t \<Rightarrow> 'd ow_t \<Rightarrow> (owr_t \<times> uint8_t list list) option" where
  "search_all drv ow =
     (case search_cb_loop drv OW_CMD_SEARCHROM collect_visitor 0 (snd (ow_search_reset_raw ow)) [] of
        None \<Rightarrow> None
      | Some (res, i, ow', roms) \<Rightarrow> Some (res, roms))"

text \<open>
  The bits of a ROM in the order of transmission: bit \<open>i\<close> on the wire is bit \<open>i mod 8\<close>
  of octet \<open>i div 8\<close>. \<open>wire_bits\<close> is the sequence of all 64; sequences of bits are
  compared lexicographically, a 0 bit before a 1 bit, so that the first bit transmitted
  weighs most.
\<close>

definition rom_bit :: "uint8_t list \<Rightarrow> nat \<Rightarrow> bool" where
  "rom_bit r i = bit (r ! (i div 8)) (i mod 8)"

definition wire_bits :: "uint8_t list \<Rightarrow> bool list" where
  "wire_bits r = map (rom_bit r) [0..<64]"

section \<open>One pass seen from the bus\<close>

text \<open>
  The definitions of this section serve the proofs about whole passes on the simulated
  bus. A pass is followed by the bits \<open>cs\<close> chosen so far (in the order of transmission)
  and the value \<open>nd\<close> of \<open>next_disrepancy\<close>; \<open>ds\<close> are the slaves on the bus, \<open>d\<close> is the
  discrepancy marker at the start of the pass, \<open>old i\<close> is bit \<open>i\<close> of the ROM buffer at
  the start of the pass and \<open>p\<close> is \<open>id_bit_number\<close>. \<open>matching ds cs\<close> are the slaves
  still taking part, \<open>abs_step\<close> is one iteration of the inner loop (\<open>None\<close> for
  \<open>goto out\<close>) and \<open>abs_run\<close> a number of iterations.
\<close>

definition matching :: "64 word list \<Rightarrow> bool list \<Rightarrow> 64 word list" where
  "matching ds cs = filter (\<lambda>x. \<forall>j<length cs. bit x j = cs ! j) ds"

definition abs_step ::
  "64 word list \<Rightarrow> nat \<Rightarrow> (nat \<Rightarrow> bool) \<Rightarrow> nat \<Rightarrow> bool list \<times> nat
     \<Rightarrow> (bool list \<times> nat) option" where
  "abs_step ds d old p st =
     (case st of (cs, nd) \<Rightarrow>
        let i = 64 - p;
            A = filter (\<lambda>x. \<forall>j<length cs. bit x j = cs ! j) ds;
            b = (\<forall>x \<in> set A. bit x i);
            b_cpl = (\<forall>x \<in> set A. \<not> bit x i)
        in if b \<and> b_cpl then None
           else let force = (\<not> b \<and> \<not> b_cpl \<and> (p < d \<or> (old i \<and> d \<noteq> p)));
                    c = (b \<or> force)
                in Some (cs @ [c], if force then p else nd))"

fun abs_run ::
  "64 word list \<Rightarrow> nat \<Rightarrow> (nat \<Rightarrow> bool) \<Rightarrow> nat \<Rightarrow> nat \<Rightarrow> bool list \<times> nat
     \<Rightarrow> (bool list \<times> nat) option" where
  "abs_run ds d old p 0 st = Some st"
| "abs_run ds d old p (Suc j) st =
     (case abs_step ds d old p st of
        None \<Rightarrow> None
      | Some st' \<Rightarrow> abs_run ds d old (p - 1) j st')"

text \<open>
  The state of the bus and of the ROM buffer before the iteration for position \<open>p\<close>. In
  the buffer, an octet of which \<open>m\<close> bits have been handled holds the other \<open>8 - m\<close> old
  bits at the bottom and the \<open>m\<close> chosen bits at the top.
\<close>

definition bus_at :: "bus ow_t \<Rightarrow> 64 word list \<Rightarrow> nat \<Rightarrow> bool list \<Rightarrow> bool" where
  "bus_at ow ds p cs \<longleftrightarrow>
     devices (arg ow) = ds \<and> baud (arg ow) = 115200 \<and> active (arg ow) = matching ds cs
     \<and> mode (arg ow) = (if p = 0 then Idle else Search (64 - p) 0)"

definition buf_rel :: "nat \<Rightarrow> uint8_t list \<Rightarrow> (nat \<Rightarrow> bool) \<Rightarrow> bool list \<Rightarrow> bool" where
  "buf_rel i buf old cs \<longleftrightarrow>
     length buf = 8 \<and> length cs = i \<and>
     (\<forall>k<8. \<forall>t<8. bit (buf ! k) t =
        (if t + min 8 (i - 8 * k) < 8 then old (8 * k + t + min 8 (i - 8 * k))
         else cs ! (8 * k + t + min 8 (i - 8 * k) - 8)))"

text \<open>
  \<open>agrees x cs j\<close>: the slave \<open>x\<close> has the first \<open>j\<close> bits of \<open>cs\<close>. \<open>has_zero\<close> and
  \<open>has_one\<close>: some slave with the first \<open>j\<close> bits of \<open>cs\<close> has a 0, or a 1, at bit \<open>j\<close>.
  \<open>step_force\<close> and \<open>step_bit\<close>: whether the iteration for position \<open>p\<close> forces a 1, and
  the bit it chooses.
\<close>

definition agrees :: "64 word \<Rightarrow> bool list \<Rightarrow> nat \<Rightarrow> bool" where
  "agrees x cs j \<longleftrightarrow> (\<forall>k<j. bit x k = cs ! k)"

definition has_zero :: "64 word list \<Rightarrow> bool list \<Rightarrow> nat \<Rightarrow> bool" where
  "has_zero ds cs j \<longleftrightarrow> (\<exists>w \<in> set ds. agrees w cs j \<and> \<not> bit w j)"

definition has_one :: "64 word list \<Rightarrow> bool list \<Rightarrow> nat \<Rightarrow> bool" where
  "has_one ds cs j \<longleftrightarrow> (\<exists>w \<in> set ds. agrees w cs j \<and> bit w j)"

definition step_force ::
  "64 word list \<Rightarrow> nat \<Rightarrow> (nat \<Rightarrow> bool) \<Rightarrow> nat \<Rightarrow> bool list \<Rightarrow> bool" where
  "step_force ds d old p cs \<longleftrightarrow>
     has_zero ds cs (64 - p) \<and> has_one ds cs (64 - p) \<and> (p < d \<or> (old (64 - p) \<and> d \<noteq> p))"

definition step_bit ::
  "64 word list \<Rightarrow> nat \<Rightarrow> (nat \<Rightarrow> bool) \<Rightarrow> nat \<Rightarrow> bool list \<Rightarrow> bool" where
  "step_bit ds d old p cs \<longleftrightarrow> \<not> has_zero ds cs (64 - p) \<or> step_force ds d old p cs"

text \<open>
  The invariant of a pass. \<open>marker_ok\<close>: a recorded position is one where a 1 was chosen
  although some slave has a 0 there. \<open>marker_last\<close>: it is the last such position.
  \<open>follows\<close>: the marker \<open>d\<close> and the old bits come from a pass that recorded \<open>d\<close>;
  \<open>followed\<close>: the pass then repeats the old bits before the marked position and chooses
  0 there. \<open>greedy\<close>: at the positions below the marker the pass chooses 1 whenever a
  slave has it.
\<close>

definition marker_ok :: "64 word list \<Rightarrow> bool list \<Rightarrow> nat \<Rightarrow> nat \<Rightarrow> bool" where
  "marker_ok ds cs p nd \<longleftrightarrow>
     nd = 0 \<or> (p < nd \<and> nd \<le> 64 \<and> cs ! (64 - nd) \<and> has_zero ds cs (64 - nd))"

definition marker_last :: "64 word list \<Rightarrow> bool list \<Rightarrow> nat \<Rightarrow> bool" where
  "marker_last ds cs nd \<longleftrightarrow>
     (\<forall>j<length cs. cs ! j \<and> has_zero ds cs j \<longrightarrow> nd \<noteq> 0 \<and> j \<le> 64 - nd)"

definition follows :: "64 word list \<Rightarrow> nat \<Rightarrow> (nat \<Rightarrow> bool) \<Rightarrow> bool" where
  "follows ds d old \<longleftrightarrow>
     1 \<le> d \<and> d \<le> 64 \<and> (\<exists>w \<in> set ds. (\<forall>k<64 - d. bit w k = old k) \<and> \<not> bit w (64 - d))"

definition followed :: "nat \<Rightarrow> (nat \<Rightarrow> bool) \<Rightarrow> bool list \<Rightarrow> bool" where
  "followed d old cs \<longleftrightarrow>
     (\<forall>j<length cs. j < 64 - d \<longrightarrow> cs ! j = old j) \<and> (64 - d < length cs \<longrightarrow> \<not> cs ! (64 - d))"

definition greedy :: "64 word list \<Rightarrow> nat \<Rightarrow> bool list \<Rightarrow> bool" where
  "greedy ds d cs \<longleftrightarrow> (\<forall>j<length cs. 64 - j < d \<longrightarrow> (cs ! j \<longleftrightarrow> has_one ds cs j))"

definition pass_inv ::
  "64 word list \<Rightarrow> nat \<Rightarrow> (nat \<Rightarrow> bool) \<Rightarrow> nat \<Rightarrow> bool list \<Rightarrow> nat \<Rightarrow> bool" where
  "pass_inv ds d old p cs nd \<longleftrightarrow>
     p \<le> 64 \<and> length cs = 64 - p \<and> (\<exists>x \<in> set ds. agrees x cs (64 - p))
     \<and> marker_ok ds cs p nd \<and> marker_last ds cs nd
     \<and> (follows ds d old \<longrightarrow> followed d old cs) \<and> greedy ds d cs"

text \<open>
  The session between two search calls of an enumeration, and the ROMs of the slaves
  that come before the bit sequence \<open>cs\<close>.
\<close>

definition enum_inv :: "64 word list \<Rightarrow> bus ow_t \<Rightarrow> bool" where
  "enum_inv ds ow \<longleftrightarrow>
     devices (arg ow) = ds \<and> length (rom ow) = 8 \<and> unat (disrepancy ow) \<le> 64
     \<and> (\<exists>x \<in> set ds. agrees x (wire_bits (rom ow)) 64)
     \<and> marker_ok ds (wire_bits (rom ow)) 0 (unat (disrepancy ow))
     \<and> marker_last ds (wire_bits (rom ow)) (unat (disrepancy ow))"

definition below :: "64 word list \<Rightarrow> bool list \<Rightarrow> uint8_t list set" where
  "below ds cs = {r \<in> rom_of ` set ds. wire_bits r < cs}"

declare search_cb_loop.simps [code]

section \<open>Reset and presence detection\<close>

text \<open>
  C3. A reset that returns \<open>owOK\<close> has made exactly three driver calls, in this order:
  \<open>set_baudrate(9600)\<close>, a \<open>tx_rx\<close> of the single octet 0xF0, and
  \<open>set_baudrate(115200)\<close>.
\<close>

theorem reset_ok_calls:
  "ow_reset_raw drv ow = (owOK, ow') \<Longrightarrow>
     calls ow' = calls ow @ [SetBaudrate 9600, TxRx [0xF0], SetBaudrate 115200]"
  by (auto simp: ow_reset_raw_def ll_set_baudrate_def ll_tx_rx_def OW_RESET_BYTE_def
           split: prod.splits if_splits)

theorem reset_ok_calls_witness:
  "ow_reset_raw script_drv
       (script_session [BaudReply True, XferReply True [0x50], BaudReply True])
     = (owOK, (script_session [])
                \<lparr>calls := [SetBaudrate 9600, TxRx [0xF0], SetBaudrate 115200]\<rparr>)
   \<and> calls ((script_session [])
                \<lparr>calls := [SetBaudrate 9600, TxRx [0xF0], SetBaudrate 115200]\<rparr>)
     = calls (script_session [BaudReply True, XferReply True [0x50], BaudReply True])
         @ [SetBaudrate 9600, TxRx [0xF0], SetBaudrate 115200]"
proof -
  have run: "ow_reset_raw script_drv
       (script_session [BaudReply True, XferReply True [0x50], BaudReply True])
     = (owOK, (script_session [])
                \<lparr>calls := [SetBaudrate 9600, TxRx [0xF0], SetBaudrate 115200]\<rparr>)"
    by (simp add: ow_reset_raw_def ll_set_baudrate_def ll_tx_rx_def OW_RESET_BYTE_def
          script_drv_def script_session_def rx_buf_def)
  from run reset_ok_calls [OF run] show ?thesis by simp
qed

text \<open>
  C4. When both baudrate changes and the exchange succeed, the reset returns
  \<open>owERRPRESENCE\<close> if the sampled octet is 0x00 or 0xF0, and \<open>owOK\<close> for every other
  sampled octet.
\<close>

theorem reset_presence:
  assumes "set_baudrate drv 9600 (arg ow) = (True, d1)"
    and "tx_rx drv [0xF0] d1 = (True, rx, d2)"
    and "set_baudrate drv 115200 d2 = (True, d3)"
  shows "fst (ow_reset_raw drv ow)
           = (if rx 0 = 0x00 \<or> rx 0 = 0xF0 then owERRPRESENCE else owOK)"
  using assms
  by (simp add: ow_reset_raw_def ll_set_baudrate_def ll_tx_rx_def OW_RESET_BYTE_def)

theorem reset_presence_witness:
  "fst (ow_reset_raw script_drv
          (script_session [BaudReply True, XferReply True [0x50], BaudReply True])) = owOK
   \<and> fst (ow_reset_raw script_drv
          (script_session [BaudReply True, XferReply True [0x00], BaudReply True]))
       = owERRPRESENCE
   \<and> fst (ow_reset_raw script_drv
          (script_session [BaudReply True, XferReply True [0xF0], BaudReply True]))
       = owERRPRESENCE"
  using
    reset_presence [of script_drv
      "script_session [BaudReply True, XferReply True [0x50], BaudReply True]"
      "[XferReply True [0x50], BaudReply True]" "rx_buf [0x50]" "[BaudReply True]" "[]"]
    reset_presence [of script_drv
      "script_session [BaudReply True, XferReply True [0x00], BaudReply True]"
      "[XferReply True [0x00], BaudReply True]" "rx_buf [0x00]" "[BaudReply True]" "[]"]
    reset_presence [of script_drv
      "script_session [BaudReply True, XferReply True [0xF0], BaudReply True]"
      "[XferReply True [0xF0], BaudReply True]" "rx_buf [0xF0]" "[BaudReply True]" "[]"]
  by (simp add: script_drv_def script_session_def rx_buf_def)

text \<open>
  C8. If the first \<open>set_baudrate(9600)\<close> fails, the reset returns \<open>owERRBAUD\<close> and that
  call is the only driver call it makes: no \<open>tx_rx\<close> is issued. If the restoring
  \<open>set_baudrate(115200)\<close> after the exchange fails, the reset returns \<open>owERRBAUD\<close> too.
\<close>

theorem reset_baud_failure:
  "(set_baudrate drv 9600 (arg ow) = (False, d1) \<longrightarrow>
      ow_reset_raw drv ow
        = (owERRBAUD, ow\<lparr>arg := d1, calls := calls ow @ [SetBaudrate 9600]\<rparr>))
   \<and> (set_baudrate drv 9600 (arg ow) = (True, d1) \<and> tx_rx drv [0xF0] d1 = (True, rx, d2)
        \<and> set_baudrate drv 115200 d2 = (False, d3) \<longrightarrow>
      fst (ow_reset_raw drv ow) = owERRBAUD)"
  by (simp add: ow_reset_raw_def ll_set_baudrate_def ll_tx_rx_def OW_RESET_BYTE_def)

theorem reset_baud_failure_witness:
  "ow_reset_raw script_drv (script_session [BaudReply False])
     = (owERRBAUD, (script_session []) \<lparr>calls := [SetBaudrate 9600]\<rparr>)
   \<and> fst (ow_reset_raw script_drv
            (script_session [BaudReply True, XferReply True [0x50], BaudReply False]))
       = owERRBAUD"
  using
    reset_baud_failure [of script_drv "script_session [BaudReply False]" "[]"]
    reset_baud_failure [of script_drv
      "script_session [BaudReply True, XferReply True [0x50], BaudReply False]"
      "[XferReply True [0x50], BaudReply False]" "rx_buf [0x50]" "[BaudReply False]" "[]"]
  by (simp add: script_drv_def script_session_def)

section \<open>Byte exchange\<close>

lemma tr_prepare_bits: "tr_prepare b = map (\<lambda>i. if bit b i then 0xFF else 0x00) [0..<8]"
  by (simp add: tr_prepare_def bit_iff_and_push_bit_not_eq_0)

lemma upt_8: "[0..<8] = [0, 1, 2, 3, 4, 5, 6, 7]"
  by (simp add: upt_rec)

lemma less_8_cases:
  "(i::nat) < 8 \<longleftrightarrow> i = 0 \<or> i = 1 \<or> i = 2 \<or> i = 3 \<or> i = 4 \<or> i = 5 \<or> i = 6 \<or> i = 7"
  by arith

lemma tr_collect_bit: "i < 8 \<Longrightarrow> bit (tr_collect rx) i \<longleftrightarrow> rx i = 0xFF"
  unfolding tr_collect_def upt_8 less_8_cases
  by (elim disjE) (simp_all add: bit_simps)

text \<open>
  C5. \<open>ow_write_byte_ex_raw\<close> with the byte \<open>b\<close> makes exactly one driver call, a \<open>tx_rx\<close>
  of eight octets whose \<open>i\<close>-th octet is 0xFF if bit \<open>i\<close> of \<open>b\<close> is set and 0x00
  otherwise. When the exchange succeeds, bit \<open>i\<close> of the byte reported back is set iff
  the \<open>i\<close>-th received octet is 0xFF. \<open>ow_read_byte_ex_raw\<close> is this operation with
  \<open>b = 0xFF\<close>.
\<close>

theorem write_byte_exchange:
  assumes "tx_rx drv (map (\<lambda>i. if bit b i then 0xFF else 0x00) [0..<8]) (arg ow) = (ok, rx, d)"
  shows "\<exists>r. ow_write_byte_ex_raw drv b ow =
            (if ok then owOK else owERRTXRX, r,
             ow\<lparr>arg := d,
                calls := calls ow @ [TxRx (map (\<lambda>i. if bit b i then 0xFF else 0x00) [0..<8])]\<rparr>)
          \<and> (ok \<longrightarrow> (\<forall>i<8. bit r i \<longleftrightarrow> rx i = 0xFF))
          \<and> ow_read_byte_ex_raw drv ow = ow_write_byte_ex_raw drv 0xFF ow"
  using assms
  by (simp add: ow_write_byte_ex_raw_def ow_read_byte_ex_raw_def ll_tx_rx_def
        tr_prepare_bits tr_collect_bit)

theorem write_byte_exchange_witness:
  "\<exists>r. ow_write_byte_ex_raw script_drv 0xA5
          (script_session [XferReply True [0xFF, 0x00, 0xFF, 0x00, 0x00, 0xFF, 0x00, 0xF8]])
        = (owOK, r, (script_session [])
             \<lparr>calls := [TxRx [0xFF, 0x00, 0xFF, 0x00, 0x00, 0xFF, 0x00, 0xFF]]\<rparr>)
      \<and> (\<forall>i<8. bit r i \<longleftrightarrow>
            rx_buf [0xFF, 0x00, 0xFF, 0x00, 0x00, 0xFF, 0x00, 0xF8] i = 0xFF)"
proof -
  have "tx_rx script_drv (map (\<lambda>i. if bit (0xA5 :: uint8_t) i then 0xFF else 0x00) [0..<8])
          (arg (script_session
             [XferReply True [0xFF, 0x00, 0xFF, 0x00, 0x00, 0xFF, 0x00, 0xF8]]))
        = (True, rx_buf [0xFF, 0x00, 0xFF, 0x00, 0x00, 0xFF, 0x00, 0xF8], [])"
    by (simp add: script_drv_def script_session_def)
  from write_byte_exchange [OF this] obtain r where
    "ow_write_byte_ex_raw script_drv 0xA5
          (script_session [XferReply True [0xFF, 0x00, 0xFF, 0x00, 0x00, 0xFF, 0x00, 0xF8]])
        = (owOK, r, (script_session [])
             \<lparr>calls := [TxRx [0xFF, 0x00, 0xFF, 0x00, 0x00, 0xFF, 0x00, 0xFF]]\<rparr>)"
    "\<forall>i<8. bit r i \<longleftrightarrow> rx_buf [0xFF, 0x00, 0xFF, 0x00, 0x00, 0xFF, 0x00, 0xF8] i = 0xFF"
    by (auto simp: script_session_def upt_8)
  then show ?thesis by blast
qed

section \<open>CRC chain\<close>

lemma crc_bits_same: "crc_bits n c c = drop_bit n c"
  by (induction n arbitrary: c) (simp_all add: drop_bit_drop_bit)

lemma crc_bytes_append: "crc_bytes c (xs @ ys) = crc_bytes (crc_bytes c xs) ys"
  by (induction xs arbitrary: c) simp_all

lemma drop_bit_8_octet: "drop_bit 8 (c :: uint8_t) = 0"
  by (simp add: drop_bit_word_beyond)

text \<open>
  C9. For every octet sequence \<open>buf\<close>, the CRC of \<open>buf\<close> followed by its own CRC is
  zero.
\<close>

theorem ow_crc_chain: "ow_crc (Some (buf @ [ow_crc (Some buf)])) = 0"
  by (cases buf)
     (simp_all add: ow_crc_def crc_bytes_append crc_bits_same drop_bit_8_octet
        del: crc_bits.simps)

section \<open>One bit of the search\<close>

lemma send_bit_session:
  "send_bit drv btw ow = (res, b, ow') \<Longrightarrow> rom ow' = rom ow \<and> disrepancy ow' = disrepancy ow"
  by (auto simp: send_bit_def ll_tx_rx_def Let_def split: prod.splits if_splits)

lemma send_bit_calls:
  "send_bit drv btw ow = (res, b, ow') \<Longrightarrow>
     calls ow' = calls ow @ [TxRx [if btw > 0 then 0xFF else 0x00]]"
  by (auto simp: send_bit_def ll_tx_rx_def Let_def split: prod.splits if_splits)

lemma and_1_cases: "(x :: uint8_t) AND 1 = 0 \<or> x AND 1 = 1"
  by (cases "odd x") (simp_all add: and_one_eq mod_2_eq_odd)

lemmas script_step_eval =
  search_bit_def send_bit_def ll_tx_rx_def script_drv_def step_session_def rx_buf_def Let_def

text \<open>
  C1, as the code has it. At a bit position \<open>p\<close> (\<open>id_bit_number\<close>, counted down from 64
  in the order of transmission) where both the bit and its complement are read as 0, with
  \<open>d\<close> the discrepancy marker left by the previous pass and \<open>stored\<close> the least
  significant bit of the current octet of the ROM buffer (the bit of the previous pass at
  this position): if \<open>p < d\<close> the master chooses 1 and records \<open>p\<close>; if \<open>p = d\<close> it chooses
  0 and records nothing; if \<open>p > d\<close> it chooses \<open>stored\<close>, and records \<open>p\<close> when that bit is
  1. Recording overwrites whatever was recorded earlier in the pass, so the lowest
  recorded position wins. The chosen bit is sent as one octet (0xFF for 1, 0x00 for 0) and
  shifted into the top of the current ROM octet.
\<close>

theorem search_bit_discrepancy:
  assumes "send_bit drv 1 ow = (owOK, 0, ow1)" and "send_bit drv 1 ow1 = (owOK, 0, ow2)"
  shows "let p = id_bit_number; d = unat (disrepancy ow); stored = (rom ow ! idx) AND 0x01;
             b = (if p < d then 1 else if p = d then 0 else stored);
             next_disrepancy' =
               (if p < d \<or> (d < p \<and> stored = 1) then of_nat p else next_disrepancy)
         in \<exists>res3 btr ow3.
              send_bit drv b ow2 = (res3, btr, ow3)
              \<and> calls ow3 = calls ow2 @ [TxRx [if b = 1 then 0xFF else 0x00]]
              \<and> search_bit drv idx p next_disrepancy ow
                  = Continue p next_disrepancy'
                      (ow3\<lparr>rom := (rom ow)[idx := drop_bit 1 (rom ow ! idx) OR push_bit 7 b]\<rparr>)"
proof -
  from assms have s2: "rom ow2 = rom ow" "disrepancy ow2 = disrepancy ow"
    using send_bit_session by metis+
  define b where "b = (if id_bit_number < unat (disrepancy ow) then 1
     else if id_bit_number = unat (disrepancy ow) then 0 else (rom ow ! idx) AND 0x01)"
  obtain res3 btr ow3 where s3: "send_bit drv b ow2 = (res3, btr, ow3)"
    by (cases "send_bit drv b ow2") auto
  from s3 have r3: "rom ow3 = rom ow2" using send_bit_session by metis
  from send_bit_calls [OF s3] and_1_cases [of "rom ow ! idx"]
  have c3: "calls ow3 = calls ow2 @ [TxRx [if b = 1 then 0xFF else 0x00]]"
    by (auto simp: b_def)
  have "search_bit drv idx id_bit_number next_disrepancy ow
      = Continue id_bit_number
          (if id_bit_number < unat (disrepancy ow)
              \<or> (unat (disrepancy ow) < id_bit_number \<and> (rom ow ! idx) AND 0x01 = 1)
           then of_nat id_bit_number else next_disrepancy)
          (ow3\<lparr>rom := (rom ow)[idx := drop_bit 1 (rom ow ! idx) OR push_bit 7 b]\<rparr>)"
    using assms s2 s3 r3 and_1_cases [of "rom ow ! idx"]
    by (auto simp: search_bit_def Let_def b_def)
  with s3 c3 show ?thesis
    unfolding Let_def b_def by blast
qed

theorem search_bit_discrepancy_witness:
  "search_bit script_drv 1 56 0
     (step_session 56 0x01 [XferReply True [0x00], XferReply True [0x00], XferReply True [0x00]])
   = Continue 56 0
       ((step_session 56 0x00 []) \<lparr>calls := [TxRx [0xFF], TxRx [0xFF], TxRx [0x00]]\<rparr>)"
proof -
  have r1: "send_bit script_drv 1
      (step_session 56 0x01 [XferReply True [0x00], XferReply True [0x00], XferReply True [0x00]])
    = (owOK, 0, (step_session 56 0x01 [XferReply True [0x00], XferReply True [0x00]])
                  \<lparr>calls := [TxRx [0xFF]]\<rparr>)"
    by (simp add: script_step_eval)
  have r2: "send_bit script_drv 1
      ((step_session 56 0x01 [XferReply True [0x00], XferReply True [0x00]])
                  \<lparr>calls := [TxRx [0xFF]]\<rparr>)
    = (owOK, 0, (step_session 56 0x01 [XferReply True [0x00]])
                  \<lparr>calls := [TxRx [0xFF], TxRx [0xFF]]\<rparr>)"
    by (simp add: script_step_eval)
  from search_bit_discrepancy [OF r1 r2, of 56 1 0]
  show ?thesis
    by (simp add: script_step_eval)
qed

text \<open>
  The rule of the claim fails in each of its three cases. In all three runs the pointer
  is at octet 1, the position is 56 and both reads give 0. With the marker at 56 and the
  stored bit 1 the master sends 0x00, that is 0 where the claim has 1. With the marker at
  0xFF (first pass, \<open>p < d\<close>) and the stored bit 0 it sends 1 and records 56, where the
  claim has the stored bit. With the marker at 40 (\<open>p > d\<close>) and the stored bit 1 it sends
  1, where the claim has 0.
\<close>

theorem search_bit_claim_counterexample:
  "search_bit script_drv 1 56 0
     (step_session 56 0x01 [XferReply True [0x00], XferReply True [0x00], XferReply True [0x00]])
   = Continue 56 0
       ((step_session 56 0x00 []) \<lparr>calls := [TxRx [0xFF], TxRx [0xFF], TxRx [0x00]]\<rparr>)
   \<and> search_bit script_drv 1 56 0
     (step_session 0xFF 0x00 [XferReply True [0x00], XferReply True [0x00], XferReply True [0xFF]])
   = Continue 56 56
       ((step_session 0xFF 0x80 []) \<lparr>calls := [TxRx [0xFF], TxRx [0xFF], TxRx [0xFF]]\<rparr>)
   \<and> search_bit script_drv 1 56 0
     (step_session 40 0x01 [XferReply True [0x00], XferReply True [0x00], XferReply True [0xFF]])
   = Continue 56 56
       ((step_session 40 0x80 []) \<lparr>calls := [TxRx [0xFF], TxRx [0xFF], TxRx [0xFF]]\<rparr>)"
  by (simp add: script_step_eval)

section \<open>An aborted pass\<close>

lemma search_bit_GotoOut:
  "search_bit drv idx n nd ow = GotoOut n' nd' ow' \<Longrightarrow> n' = n \<and> nd' = nd"
  by (auto simp: search_bit_def Let_def split: prod.splits if_splits)

text \<open>The loop body takes \<open>goto out\<close> exactly when both bits are read as 1.\<close>

lemma search_bit_GotoOut_iff:
  "search_bit drv idx n nd ow = GotoOut n' nd' ow' \<longleftrightarrow>
     (\<exists>ow1. send_bit drv 1 ow = (owOK, 1, ow1) \<and> send_bit drv 1 ow1 = (owOK, 1, ow')
            \<and> n' = n \<and> nd' = nd)"
  by (auto simp: search_bit_def send_bit_def Let_def split: prod.splits if_splits)

lemma search_bit_Continue:
  "search_bit drv idx n nd ow = Continue n' nd' ow' \<Longrightarrow> n' = n"
  by (auto simp: search_bit_def Let_def split: prod.splits if_splits)

lemma search_byte_GotoOut_pos:
  "search_byte drv idx j n nd ow = GotoOut n' nd' ow' \<Longrightarrow> j \<le> n \<Longrightarrow> 0 < n'"
proof (induction j arbitrary: n nd ow)
  case 0
  then show ?case by simp
next
  case (Suc j)
  show ?case
  proof (cases "search_bit drv idx n nd ow")
    case (Continue n1 nd1 ow1)
    with Suc.prems have "search_byte drv idx j (n1 - 1) nd1 ow1 = GotoOut n' nd' ow'" by simp
    moreover from Continue have "n1 = n" by (rule search_bit_Continue)
    ultimately show ?thesis using Suc.IH [of "n - 1" nd1 ow1] Suc.prems(2) by simp
  next
    case (GotoOut n1 nd1 ow1)
    with Suc.prems search_bit_GotoOut [OF GotoOut] show ?thesis by simp
  next
    case (Return r ow1)
    with Suc.prems show ?thesis by simp
  qed
qed

lemma search_byte_Continue:
  "search_byte drv idx j n nd ow = Continue n' nd' ow' \<Longrightarrow> n' = n - j"
proof (induction j arbitrary: n nd ow)
  case 0
  then show ?case by simp
next
  case (Suc j)
  from Suc.prems obtain n1 nd1 ow1
    where b: "search_bit drv idx n nd ow = Continue n1 nd1 ow1"
      and r: "search_byte drv idx j (n1 - 1) nd1 ow1 = Continue n' nd' ow'"
    by (auto split: loop_exit.splits)
  from search_bit_Continue [OF b] Suc.IH [OF r] show ?case by simp
qed

lemma search_rom_GotoOut_pos:
  "search_rom drv idx n nd ow = GotoOut n' nd' ow' \<Longrightarrow> 8 dvd n \<Longrightarrow> 0 < n'"
proof (induction drv idx n nd ow rule: search_rom.induct)
  case (1 drv idx n nd ow)
  show ?case
  proof (cases "0 < n")
    case False
    with "1.prems" show ?thesis by (simp add: search_rom.simps [of drv idx n])
  next
    case True
    with "1.prems"(2) have n8: "8 \<le> n" by (auto elim: dvdE)
    show ?thesis
    proof (cases "search_byte drv idx 8 n nd ow")
      case (Continue n1 nd1 ow1)
      with True "1.prems"(1) have "search_rom drv (idx + 1) n1 nd1 ow1 = GotoOut n' nd' ow'"
        by (simp add: search_rom.simps [of drv idx n])
      moreover from search_byte_Continue [OF Continue] "1.prems"(2) n8 have "8 dvd n1"
        by (simp add: dvd_diff_nat)
      ultimately show ?thesis using "1.IH" [OF True Continue] by simp
    next
      case (GotoOut n1 nd1 ow1)
      with True "1.prems"(1) have "n1 = n'" by (simp add: search_rom.simps [of drv idx n])
      with search_byte_GotoOut_pos [OF GotoOut n8] show ?thesis by simp
    next
      case (Return r ow1)
      with True "1.prems"(1) show ?thesis by (simp add: search_rom.simps [of drv idx n])
    qed
  qed
qed

lemma search_byte_numeral:
  "search_byte drv idx (numeral k) n nd ow =
     (case search_bit drv idx n nd ow of
        Continue n1 nd1 ow1 \<Rightarrow> search_byte drv idx (pred_numeral k) (n1 - 1) nd1 ow1
      | GotoOut n1 nd1 ow1 \<Rightarrow> GotoOut n1 nd1 ow1
      | Return res ow1 \<Rightarrow> Return res ow1)"
  by (simp add: numeral_eq_Suc)

lemmas script_pass_eval =
  send_bit_def ll_tx_rx_def ll_set_baudrate_def script_drv_def rx_buf_def Let_def
  stale_session_def abort_script_def OW_FIRST_DEV_def OW_LAST_DEV_def OW_RESET_BYTE_def

text \<open>
  C10. When the search loop is left by \<open>goto out\<close> (both bits read as 1) after a
  successful reset and the command write, the call returns \<open>owERRNODEV\<close>, and before
  that it copies the session ROM buffer as the loop left it into \<open>*rom_id\<close> and
  overwrites the discrepancy marker with the value of \<open>next_disrepancy\<close> accumulated up
  to the abort.
\<close>

theorem search_abort_copies_rom:
  assumes "disrepancy ow \<noteq> 0"
    and "ow_reset_raw drv ow = (owOK, ow1)"
    and "ow_write_byte_ex_raw drv cmd ow1 = (res_w, br, ow2)"
    and "search_rom drv 0 64 OW_LAST_DEV ow2 = GotoOut n next_disrepancy ow3"
  shows "ow_search_with_command_raw drv cmd ow
           = (owERRNODEV, Some (rom ow3), ow3\<lparr>disrepancy := next_disrepancy\<rparr>)"
proof -
  from search_rom_GotoOut_pos [OF assms(4)] have "0 < n" by simp
  with assms show ?thesis
    by (simp add: ow_search_with_command_raw_def search_out_def Let_def)
qed

text \<open>
  A pass that resolves a discrepancy at position 64 and then reads two 1 bits at position
  63: the caller receives the buffer with octet 0 shifted once (0x2A became 0x95) and the
  other seven octets as an earlier pass left them, and the marker becomes 64.
\<close>

theorem search_abort_copies_rom_witness:
  "ow_search_with_command_raw script_drv 0xF0 (stale_session abort_script [])
     = (owERRNODEV, Some [0x95, 0x11, 0x22, 0x33, 0x44, 0x55, 0x66, 0x77],
        \<lparr>rom = [0x95, 0x11, 0x22, 0x33, 0x44, 0x55, 0x66, 0x77], disrepancy = 64, arg = [],
         calls = [SetBaudrate 9600, TxRx [0xF0], SetBaudrate 115200,
                  TxRx [0x00, 0x00, 0x00, 0x00, 0xFF, 0xFF, 0xFF, 0xFF],
                  TxRx [0xFF], TxRx [0xFF], TxRx [0xFF], TxRx [0xFF], TxRx [0xFF]]\<rparr>)"
proof -
  have h1: "disrepancy (stale_session abort_script []) \<noteq> 0"
    by (simp add: script_pass_eval)
  have h2: "ow_reset_raw script_drv (stale_session abort_script [])
      = (owOK, stale_session (drop 3 abort_script)
                 [SetBaudrate 9600, TxRx [0xF0], SetBaudrate 115200])"
    by (simp add: ow_reset_raw_def script_pass_eval)
  have h3: "ow_write_byte_ex_raw script_drv 0xF0
       (stale_session (drop 3 abort_script) [SetBaudrate 9600, TxRx [0xF0], SetBaudrate 115200])
      = (owOK, 0xF0, stale_session (drop 4 abort_script)
           [SetBaudrate 9600, TxRx [0xF0], SetBaudrate 115200,
            TxRx [0x00, 0x00, 0x00, 0x00, 0xFF, 0xFF, 0xFF, 0xFF]])"
    by (simp add: ow_write_byte_ex_raw_def tr_prepare_def tr_collect_def upt_8 script_pass_eval)
  have h4: "search_rom script_drv 0 64 OW_LAST_DEV
       (stale_session (drop 4 abort_script)
           [SetBaudrate 9600, TxRx [0xF0], SetBaudrate 115200,
            TxRx [0x00, 0x00, 0x00, 0x00, 0xFF, 0xFF, 0xFF, 0xFF]])
     = GotoOut 63 64
        ((stale_session [] [SetBaudrate 9600, TxRx [0xF0], SetBaudrate 115200,
            TxRx [0x00, 0x00, 0x00, 0x00, 0xFF, 0xFF, 0xFF, 0xFF],
            TxRx [0xFF], TxRx [0xFF], TxRx [0xFF], TxRx [0xFF], TxRx [0xFF]])
         \<lparr>rom := [0x95, 0x11, 0x22, 0x33, 0x44, 0x55, 0x66, 0x77]\<rparr>)"
    by (simp add: search_rom.simps [of _ _ 64] search_byte_numeral search_bit_def
          script_pass_eval)
  from search_abort_copies_rom [OF h1 h2 h3 h4]
  show ?thesis by (simp add: script_pass_eval)
qed

section \<open>Search on the simulated bus\<close>

lemma bus_reset_exchange:
  "baud s = 9600 \<Longrightarrow> bus_slot 0xF0 s
     = (if devices s = [] then 0xF0 else 0xE0, s\<lparr>active := devices s, mode := Command 0 0\<rparr>)"
  by (simp add: bus_slot_def bus_reset_def)

lemma ow_reset_raw_bus:
  "ow_reset_raw bus_drv ow
     = (if devices (arg ow) = [] then owERRPRESENCE else owOK,
        ow\<lparr>arg := (arg ow)\<lparr>baud := 115200, active := devices (arg ow), mode := Command 0 0\<rparr>,
           calls := calls ow @ [SetBaudrate 9600, TxRx [0xF0], SetBaudrate 115200]\<rparr>)"
  by (simp add: ow_reset_raw_def ll_set_baudrate_def ll_tx_rx_def bus_drv_def
        bus_reset_exchange rx_buf_def OW_RESET_BYTE_def)

text \<open>
  C6, as the code has it. On an empty bus the first search call after a search reset
  returns \<open>owERRPRESENCE\<close>: the reset samples the octet 0xF0 it sent, and the search
  returns the result of the reset unchanged, without writing a ROM and with the
  discrepancy marker still 0xFF.
\<close>

theorem search_empty_bus:
  "devices (arg ow) = [] \<Longrightarrow>
     \<exists>ow'. ow_search_raw bus_drv (snd (ow_search_reset_raw ow)) = (owERRPRESENCE, None, ow')
           \<and> disrepancy ow' = OW_FIRST_DEV"
  by (simp add: ow_search_raw_def ow_search_with_command_raw_def ow_search_reset_raw_def
        ow_reset_raw_bus OW_FIRST_DEV_def)

theorem search_empty_bus_witness:
  "devices (arg (bus_session [])) = []
   \<and> (\<exists>ow'. ow_search_raw bus_drv (snd (ow_search_reset_raw (bus_session [])))
               = (owERRPRESENCE, None, ow') \<and> disrepancy ow' = OW_FIRST_DEV)"
proof -
  have h: "devices (arg (bus_session [])) = []" by (simp add: bus_session_def)
  from h search_empty_bus [OF h] show ?thesis by blast
qed

text \<open>The first search on the empty bus does not return \<open>owERRNODEV\<close>.\<close>

theorem search_empty_bus_counterexample:
  "fst (ow_search_raw bus_drv (snd (ow_search_reset_raw (bus_session [])))) = owERRPRESENCE
   \<and> fst (ow_search_raw bus_drv (snd (ow_search_reset_raw (bus_session [])))) \<noteq> owERRNODEV"
  by (simp add: ow_search_raw_def ow_search_with_command_raw_def ow_search_reset_raw_def
        ow_reset_raw_bus OW_FIRST_DEV_def bus_session_def)

section \<open>A pass on the simulated bus\<close>

text \<open>
  The search loop, run against the simulated bus, chooses the bits that \<open>abs_run\<close>
  computes. First one bit: three time slots on the bus and one shift of the ROM buffer.
\<close>

lemma matching_snoc:
  "matching ds (cs @ [c]) = filter (\<lambda>x. bit x (length cs) = c) (matching ds cs)"
  by (auto simp: matching_def nth_append less_Suc_eq intro!: filter_cong)

lemma read_slot:
  assumes "baud s = 115200" "mode s = Search i 0"
  shows "send_bit bus_drv 1 (ow\<lparr>arg := s\<rparr>)
     = (owOK, (if \<forall>x \<in> set (active s). bit x i then 1 else 0),
        ow\<lparr>arg := s\<lparr>mode := Search i 1\<rparr>, calls := calls ow @ [TxRx [0xFF]]\<rparr>)"
  using assms
  by (simp add: send_bit_def ll_tx_rx_def bus_drv_def bus_slot_def rx_buf_def)

lemma read_cpl_slot:
  assumes "baud s = 115200" "mode s = Search i 1"
  shows "send_bit bus_drv 1 (ow\<lparr>arg := s\<rparr>)
     = (owOK, (if \<forall>x \<in> set (active s). \<not> bit x i then 1 else 0),
        ow\<lparr>arg := s\<lparr>mode := Search i 2\<rparr>, calls := calls ow @ [TxRx [0xFF]]\<rparr>)"
  using assms
  by (simp add: send_bit_def ll_tx_rx_def bus_drv_def bus_slot_def rx_buf_def)

lemma write_slot:
  assumes "baud s = 115200" "mode s = Search i 2" "c = 0 \<or> c = 1"
  shows "send_bit bus_drv c (ow\<lparr>arg := s\<rparr>)
     = (owOK, c,
        ow\<lparr>arg := s\<lparr>active := filter (\<lambda>x. bit x i = (c = 1)) (active s),
                     mode := (if i + 1 < 64 then Search (i + 1) 0 else Idle)\<rparr>,
           calls := calls ow @ [TxRx [if c = 1 then 0xFF else 0x00]]\<rparr>)"
  using assms
  by (auto simp: send_bit_def ll_tx_rx_def bus_drv_def bus_slot_def rx_buf_def)

lemma not_bit_8: "\<not> bit (x :: uint8_t) 8" "\<not> bit (x :: uint8_t) (Suc 7)"
  by (auto dest: bit_imp_le_length)

lemma bit_shift_in:
  "t < 8 \<Longrightarrow> bit (drop_bit 1 (x :: uint8_t) OR push_bit 7 (if c then 1 else 0)) t
     = (if t = 7 then c else bit x (Suc t))"
  unfolding less_8_cases
  by (elim disjE; cases c; simp add: bit_simps not_bit_8 numeral_3_eq_3)

lemma buf_rel_length: "buf_rel i buf old cs \<Longrightarrow> length buf = 8 \<and> length cs = i"
  by (simp add: buf_rel_def)

lemma buf_rel_bit:
  "buf_rel i buf old cs \<Longrightarrow> k < 8 \<Longrightarrow> t < 8 \<Longrightarrow>
     bit (buf ! k) t =
        (if t + min 8 (i - 8 * k) < 8 then old (8 * k + t + min 8 (i - 8 * k))
         else cs ! (8 * k + t + min 8 (i - 8 * k) - 8))"
  by (simp add: buf_rel_def)

lemma buf_rel_lsb:
  assumes "buf_rel i buf old cs" "i < 64"
  shows "bit (buf ! (i div 8)) 0 = old i"
proof -
  have k: "i div 8 < 8" using assms(2) by simp
  have m: "min 8 (i - 8 * (i div 8)) = i mod 8"
    by (simp add: minus_mult_div_eq_mod)
  from buf_rel_bit [OF assms(1) k, of 0] show ?thesis by (simp add: m)
qed

lemma buf_rel_step:
  assumes rel: "buf_rel i buf old cs" and i: "i < 64"
  shows "buf_rel (Suc i)
           (buf[i div 8 := drop_bit 1 (buf ! (i div 8)) OR push_bit 7 (if c then 1 else 0)])
           old (cs @ [c])"
proof -
  from buf_rel_length [OF rel] have len: "length buf = 8" "length cs = i"
    by simp_all
  note bits = buf_rel_bit [OF rel]
  let ?buf' = "buf[i div 8 := drop_bit 1 (buf ! (i div 8)) OR push_bit 7 (if c then 1 else 0)]"
  have step: "bit (?buf' ! k) t =
        (if t + min 8 (Suc i - 8 * k) < 8 then old (8 * k + t + min 8 (Suc i - 8 * k))
         else (cs @ [c]) ! (8 * k + t + min 8 (Suc i - 8 * k) - 8))"
    if k: "k < 8" and t: "t < 8" for k t
  proof (cases "k = i div 8")
    case True
    define m where "m = i mod 8"
    have m8: "m < 8" by (simp add: m_def)
    have ik: "i = 8 * k + m" using True by (simp add: m_def)
    have m1: "min 8 (i - 8 * k) = m" "min 8 (Suc i - 8 * k) = Suc m"
      using m8 by (simp_all add: ik)
    have "?buf' ! k = drop_bit 1 (buf ! k) OR push_bit 7 (if c then 1 else 0)"
      using True k len by (simp only: nth_list_update_eq)
    then have new: "bit (?buf' ! k) t = (if t = 7 then c else bit (buf ! k) (Suc t))"
      using bit_shift_in [OF t, of "buf ! k" c] by (simp only:)
    show ?thesis
    proof (cases "t = 7")
      case True
      have a: "\<not> t + Suc m < 8" using True by simp
      have b: "8 * k + t + Suc m - 8 = length cs" using True len ik by simp
      from new True have "bit (?buf' ! k) t = c" by simp
      then show ?thesis unfolding m1 using a b by (simp only: if_False nth_append_length)
    next
      case False
      with t have t': "Suc t < 8" by simp
      from new False have n2: "bit (?buf' ! k) t = bit (buf ! k) (Suc t)" by simp
      show ?thesis
      proof (cases "Suc t + m < 8")
        case True
        with bits [OF k t'] n2 show ?thesis unfolding m1 by simp
      next
        case False
        then have "8 * k + t + Suc m - 8 < length cs" using t' len ik by simp
        then have "(cs @ [c]) ! (8 * k + t + Suc m - 8) = cs ! (8 * k + Suc t + m - 8)"
          by (simp add: nth_append)
        with bits [OF k t'] n2 False show ?thesis unfolding m1 by simp
      qed
    qed
  next
    case False
    then have same: "?buf' ! k = buf ! k" by simp
    from False have "8 * k + 8 \<le> i \<or> i < 8 * k"
      by arith
    then consider "8 * k + 8 \<le> i" | "i < 8 * k"
      by blast
    then show ?thesis
    proof cases
      case 1
      then have mm: "min 8 (i - 8 * k) = 8" "min 8 (Suc i - 8 * k) = 8" by simp_all
      have "8 * k + t + 8 - 8 < length cs" using 1 t len by simp
      then have "(cs @ [c]) ! (8 * k + t + 8 - 8) = cs ! (8 * k + t + 8 - 8)"
        by (simp only: nth_append if_True)
      with bits [OF k t] same show ?thesis unfolding mm by simp
    next
      case 2
      then have mm: "i - 8 * k = 0" "Suc i - 8 * k = 0" by simp_all
      from bits [OF k t] same t show ?thesis unfolding mm by simp
    qed
  qed
  show ?thesis
    unfolding buf_rel_def
  proof (intro conjI allI impI)
    show "length ?buf' = 8" using len by simp
    show "length (cs @ [c]) = Suc i" using len by simp
    fix k t :: nat
    assume "k < 8" "t < 8"
    then show "bit (?buf' ! k) t =
        (if t + min 8 (Suc i - 8 * k) < 8 then old (8 * k + t + min 8 (Suc i - 8 * k))
         else (cs @ [c]) ! (8 * k + t + min 8 (Suc i - 8 * k) - 8))"
      by (rule step)
  qed
qed

lemma and_1_bit_0: "(x :: uint8_t) AND 1 \<noteq> 0 \<longleftrightarrow> bit x 0"
  by (simp add: and_one_eq bit_0 mod_2_eq_odd)

lemma read_slot':
  assumes "baud (arg ow) = 115200" "mode (arg ow) = Search i 0"
  shows "send_bit bus_drv 1 ow
     = (owOK, (if \<forall>x \<in> set (active (arg ow)). bit x i then 1 else 0),
        ow\<lparr>arg := (arg ow)\<lparr>mode := Search i 1\<rparr>, calls := calls ow @ [TxRx [0xFF]]\<rparr>)"
  using read_slot [of "arg ow" i ow] assms by simp

lemma read_cpl_slot':
  assumes "baud (arg ow) = 115200" "mode (arg ow) = Search i 1"
  shows "send_bit bus_drv 1 ow
     = (owOK, (if \<forall>x \<in> set (active (arg ow)). \<not> bit x i then 1 else 0),
        ow\<lparr>arg := (arg ow)\<lparr>mode := Search i 2\<rparr>, calls := calls ow @ [TxRx [0xFF]]\<rparr>)"
  using read_cpl_slot [of "arg ow" i ow] assms by simp

lemma write_slot':
  assumes "baud (arg ow) = 115200" "mode (arg ow) = Search i 2"
  shows "send_bit bus_drv (if c then 1 else 0) ow
     = (owOK, (if c then 1 else 0),
        ow\<lparr>arg := (arg ow)\<lparr>active := filter (\<lambda>x. bit x i = c) (active (arg ow)),
                     mode := (if i + 1 < 64 then Search (i + 1) 0 else Idle)\<rparr>,
           calls := calls ow @ [TxRx [if c then 0xFF else 0x00]]\<rparr>)"
  using write_slot [of "arg ow" i "if c then 1 else 0" ow] assms by (cases c) simp_all

lemma search_bit_bus:
  assumes p: "0 < p" "p \<le> 64"
    and at: "bus_at ow ds p cs" and buf: "buf_rel (64 - p) (rom ow) old cs"
    and st: "abs_step ds (unat (disrepancy ow)) old p (cs, nd) = Some (cs', nd')"
  shows "\<exists>ow'. search_bit bus_drv ((64 - p) div 8) p (of_nat nd) ow = Continue p (of_nat nd') ow'
           \<and> bus_at ow' ds (p - 1) cs' \<and> buf_rel (Suc (64 - p)) (rom ow') old cs'
           \<and> disrepancy ow' = disrepancy ow"
proof -
  define i where "i = 64 - p"
  define A where "A = matching ds cs"
  define b where "b \<longleftrightarrow> (\<forall>x \<in> set A. bit x i)"
  define b_cpl where "b_cpl \<longleftrightarrow> (\<forall>x \<in> set A. \<not> bit x i)"
  define force where
    "force \<longleftrightarrow> \<not> b \<and> \<not> b_cpl \<and>
       (p < unat (disrepancy ow) \<or> (old i \<and> unat (disrepancy ow) \<noteq> p))"
  define c where "c \<longleftrightarrow> b \<or> force"
  from p have i64: "i < 64" by (simp add: i_def)
  from st have ok: "\<not> (b \<and> b_cpl)" and cs': "cs' = cs @ [c]"
    and nd': "nd' = (if force then p else nd)"
    by (auto simp: abs_step_def Let_def A_def matching_def b_def b_cpl_def force_def c_def i_def
             split: if_splits)
  from at p have bus: "devices (arg ow) = ds" "baud (arg ow) = 115200" "active (arg ow) = A"
    "mode (arg ow) = Search i 0"
    by (simp_all add: bus_at_def A_def i_def)
  define ow1 where
    "ow1 = ow\<lparr>arg := (arg ow)\<lparr>mode := Search i 1\<rparr>, calls := calls ow @ [TxRx [0xFF]]\<rparr>"
  define ow2 where
    "ow2 = ow1\<lparr>arg := (arg ow1)\<lparr>mode := Search i 2\<rparr>, calls := calls ow1 @ [TxRx [0xFF]]\<rparr>"
  define ow3 where
    "ow3 = ow2\<lparr>arg := (arg ow2)\<lparr>active := filter (\<lambda>x. bit x i = c) (active (arg ow2)),
                     mode := (if i + 1 < 64 then Search (i + 1) 0 else Idle)\<rparr>,
           calls := calls ow2 @ [TxRx [if c then 0xFF else 0x00]]\<rparr>"
  have r1: "send_bit bus_drv 1 ow = (owOK, (if b then 1 else 0), ow1)"
    using read_slot' [OF bus(2) bus(4)] by (simp add: bus ow1_def b_def)
  have r2: "send_bit bus_drv 1 ow1 = (owOK, (if b_cpl then 1 else 0), ow2)"
    using read_cpl_slot' [of ow1 i] by (simp add: bus ow1_def ow2_def b_cpl_def)
  have r3: "send_bit bus_drv (if c then 1 else 0) ow2 = (owOK, (if c then 1 else 0), ow3)"
    using write_slot' [of ow2 i c] by (simp add: bus ow1_def ow2_def ow3_def)
  have r3_1: "c \<Longrightarrow> send_bit bus_drv 1 ow2 = (owOK, 1, ow3)"
    and r3_0: "\<not> c \<Longrightarrow> send_bit bus_drv 0 ow2 = (owOK, 0, ow3)"
    using r3 by simp_all
  have lsb: "(rom ow ! (i div 8)) AND 1 \<noteq> 0 \<longleftrightarrow> old i"
    using buf_rel_lsb [OF buf [folded i_def] i64] by (simp add: and_1_bit_0)
  have same: "rom ow2 = rom ow" "disrepancy ow2 = disrepancy ow" "rom ow3 = rom ow"
    "disrepancy ow3 = disrepancy ow"
    by (simp_all add: ow1_def ow2_def ow3_def)
  define ow' where
    "ow' = ow3\<lparr>rom := (rom ow)[i div 8 :=
               drop_bit 1 (rom ow ! (i div 8)) OR push_bit 7 (if c then 1 else 0)]\<rparr>"
  have run: "search_bit bus_drv (i div 8) p (of_nat nd) ow = Continue p (of_nat nd') ow'"
    using ok
    by (simp add: search_bit_def r1 r2 same lsb Let_def)
       (auto simp: r3_1 r3_0 same force_def c_def nd' ow'_def lsb)
  have at': "bus_at ow' ds (p - 1) cs'"
    using p bus
    by (auto simp: bus_at_def ow'_def ow3_def ow2_def ow1_def cs' matching_snoc
          buf_rel_length [OF buf] A_def i_def)
  have buf': "buf_rel (Suc i) (rom ow') old cs'"
    using buf_rel_step [OF buf [folded i_def] i64, of c] by (simp add: ow'_def cs')
  from run at' buf' show ?thesis
    by (auto simp: i_def ow'_def same)
qed

lemma abs_run_add:
  "abs_run ds d old p (j1 + j2) st =
     (case abs_run ds d old p j1 st of
        None \<Rightarrow> None
      | Some st' \<Rightarrow> abs_run ds d old (p - j1) j2 st')"
  by (induction j1 arbitrary: p st) (auto split: option.splits)

lemma search_byte_bus:
  assumes "abs_run ds (unat (disrepancy ow)) old p j (cs, nd) = Some (cs', nd')"
    and "p \<le> 64" "64 - p = 8 * idx + m" "m + j \<le> 8" "j \<le> p"
    and "bus_at ow ds p cs" "buf_rel (64 - p) (rom ow) old cs"
  shows "\<exists>ow'. search_byte bus_drv idx j p (of_nat nd) ow
                 = Continue (p - j) (of_nat nd') ow'
           \<and> bus_at ow' ds (p - j) cs' \<and> buf_rel (64 - (p - j)) (rom ow') old cs'
           \<and> disrepancy ow' = disrepancy ow"
  using assms
proof (induction j arbitrary: p m cs nd ow)
  case 0
  then show ?case by simp
next
  case (Suc j)
  from Suc.prems(5) have p0: "0 < p" by simp
  from Suc.prems(3,4) have idx: "(64 - p) div 8 = idx" by simp
  from Suc.prems(1) obtain cs1 nd1
    where st: "abs_step ds (unat (disrepancy ow)) old p (cs, nd) = Some (cs1, nd1)"
      and rest: "abs_run ds (unat (disrepancy ow)) old (p - 1) j (cs1, nd1) = Some (cs', nd')"
    by (auto split: option.splits)
  from search_bit_bus [OF p0 Suc.prems(2) Suc.prems(6) Suc.prems(7) st]
  obtain ow1 where bit1: "search_bit bus_drv idx p (of_nat nd) ow
                            = Continue p (of_nat nd1) ow1"
    and at1: "bus_at ow1 ds (p - 1) cs1"
    and buf1: "buf_rel (Suc (64 - p)) (rom ow1) old cs1"
    and d1: "disrepancy ow1 = disrepancy ow"
    unfolding idx by blast
  have suc: "Suc (64 - p) = 64 - (p - 1)"
    using Suc.prems(2) p0 by arith
  have pos: "64 - (p - 1) = 8 * idx + Suc m"
    using Suc.prems(3) suc by simp
  have md: "Suc m + j \<le> 8" using Suc.prems(4) by simp
  have jp: "j \<le> p - 1" "p - 1 \<le> 64" using Suc.prems(2,5) by simp_all
  have rest': "abs_run ds (unat (disrepancy ow1)) old (p - 1) j (cs1, nd1) = Some (cs', nd')"
    using rest d1 by simp
  have buf1': "buf_rel (64 - (p - 1)) (rom ow1) old cs1"
    using buf1 suc by simp
  from Suc.IH [OF rest' jp(2) pos md jp(1) at1 buf1']
  obtain ow' where r: "search_byte bus_drv idx j (p - 1) (of_nat nd1) ow1
                 = Continue (p - 1 - j) (of_nat nd') ow'"
    and r2: "bus_at ow' ds (p - 1 - j) cs'" "buf_rel (64 - (p - 1 - j)) (rom ow') old cs'"
    and r3: "disrepancy ow' = disrepancy ow1"
    by blast
  have "search_byte bus_drv idx (Suc j) p (of_nat nd) ow
          = Continue (p - Suc j) (of_nat nd') ow'"
    using bit1 r by simp
  with r2 r3 d1 show ?case by auto
qed

lemma search_rom_bus:
  assumes "abs_run ds (unat (disrepancy ow)) old (8 * q) (8 * q) (cs, nd) = Some (cs', nd')"
    and "q \<le> 8" "bus_at ow ds (8 * q) cs" "buf_rel (64 - 8 * q) (rom ow) old cs"
  shows "\<exists>ow'. search_rom bus_drv (8 - q) (8 * q) (of_nat nd) ow = Continue 0 (of_nat nd') ow'
           \<and> bus_at ow' ds 0 cs' \<and> buf_rel 64 (rom ow') old cs'
           \<and> disrepancy ow' = disrepancy ow"
  using assms
proof (induction q arbitrary: cs nd ow)
  case 0
  then show ?case by (simp add: search_rom.simps [of _ _ 0])
next
  case (Suc q)
  let ?p = "8 * Suc q"
  from Suc.prems(1) have "abs_run ds (unat (disrepancy ow)) old ?p (8 + 8 * q) (cs, nd)
                            = Some (cs', nd')"
    by simp
  then obtain cs1 nd1
    where byte: "abs_run ds (unat (disrepancy ow)) old ?p 8 (cs, nd) = Some (cs1, nd1)"
      and rest: "abs_run ds (unat (disrepancy ow)) old (?p - 8) (8 * q) (cs1, nd1)
                   = Some (cs', nd')"
    unfolding abs_run_add by (auto split: option.splits)
  have a1: "?p \<le> 64" using Suc.prems(2) by simp
  have a2: "64 - ?p = 8 * (8 - Suc q) + 0" using Suc.prems(2) by simp
  have a3: "(0::nat) + 8 \<le> 8" by simp
  have a4: "8 \<le> ?p" by simp
  have a5: "?p - 8 = 8 * q" by simp
  have a6: "8 - Suc q + 1 = 8 - q" using Suc.prems(2) by simp
  from search_byte_bus [OF byte a1 a2 a3 a4 Suc.prems(3) Suc.prems(4)]
  obtain ow1 where b1: "search_byte bus_drv (8 - Suc q) 8 ?p (of_nat nd) ow
                          = Continue (8 * q) (of_nat nd1) ow1"
    and at1: "bus_at ow1 ds (8 * q) cs1" and buf1: "buf_rel (64 - 8 * q) (rom ow1) old cs1"
    and d1: "disrepancy ow1 = disrepancy ow"
    unfolding a5 by blast
  have rest': "abs_run ds (unat (disrepancy ow1)) old (8 * q) (8 * q) (cs1, nd1)
                 = Some (cs', nd')"
    using rest d1 unfolding a5 by simp
  have q8: "q \<le> 8" using Suc.prems(2) by simp
  from Suc.IH [OF rest' q8 at1 buf1]
  obtain ow' where r: "search_rom bus_drv (8 - q) (8 * q) (of_nat nd1) ow1
                      = Continue 0 (of_nat nd') ow'"
    and r2: "bus_at ow' ds 0 cs'" "buf_rel 64 (rom ow') old cs'"
    and r3: "disrepancy ow' = disrepancy ow1"
    by blast
  have "search_rom bus_drv (8 - Suc q) ?p (of_nat nd) ow = Continue 0 (of_nat nd') ow'"
    using b1 r a6 by (subst search_rom.simps) simp
  with r2 r3 d1 show ?case by auto
qed

lemma write_search_cmd_bus:
  assumes "baud (arg ow) = 115200" "mode (arg ow) = Command 0 0"
  shows "ow_write_byte_ex_raw bus_drv 0xF0 ow
     = (owOK, 0xF0,
        ow\<lparr>arg := (arg ow)\<lparr>mode := Search 0 0\<rparr>,
           calls := calls ow @ [TxRx [0x00, 0x00, 0x00, 0x00, 0xFF, 0xFF, 0xFF, 0xFF]]\<rparr>)"
  using assms
  by (simp add: ow_write_byte_ex_raw_def ll_tx_rx_def tr_prepare_def tr_collect_def upt_8
        bus_drv_def bus_slot_def rx_buf_def)

lemma buf_rel_start: "length buf = 8 \<Longrightarrow> buf_rel 0 buf (rom_bit buf) []"
  by (simp add: buf_rel_def rom_bit_def)

lemma buf_rel_end:
  assumes "buf_rel 64 buf old cs" "i < 64"
  shows "rom_bit buf i = cs ! i"
proof -
  have "i div 8 < 8" "i mod 8 < 8" using assms(2) by simp_all
  moreover have "i div 8 \<le> 7" using assms(2) by simp
  then have "min 8 (64 - 8 * (i div 8)) = 8" by simp
  ultimately show ?thesis
    using buf_rel_bit [OF assms(1), of "i div 8" "i mod 8"] by (simp add: rom_bit_def)
qed

lemma ow_search_raw_bus:
  assumes d: "disrepancy ow \<noteq> 0" and ds: "devices (arg ow) = ds" "ds \<noteq> []"
    and len: "length (rom ow) = 8"
    and run: "abs_run ds (unat (disrepancy ow)) (rom_bit (rom ow)) 64 64 ([], 0)
                = Some (cs', nd')"
  shows "\<exists>ow'. ow_search_raw bus_drv ow = (owOK, Some (rom ow'), ow')
           \<and> disrepancy ow' = of_nat nd' \<and> devices (arg ow') = ds \<and> length (rom ow') = 8
           \<and> length cs' = 64 \<and> (\<forall>i<64. rom_bit (rom ow') i = cs' ! i)"
proof -
  define ow1 where
    "ow1 = ow\<lparr>arg := (arg ow)\<lparr>baud := 115200, active := devices (arg ow), mode := Command 0 0\<rparr>,
              calls := calls ow @ [SetBaudrate 9600, TxRx [0xF0], SetBaudrate 115200]\<rparr>"
  define ow2 where
    "ow2 = ow1\<lparr>arg := (arg ow1)\<lparr>mode := Search 0 0\<rparr>,
           calls := calls ow1 @ [TxRx [0x00, 0x00, 0x00, 0x00, 0xFF, 0xFF, 0xFF, 0xFF]]\<rparr>"
  have reset: "ow_reset_raw bus_drv ow = (owOK, ow1)"
    using ds by (simp add: ow_reset_raw_bus ow1_def)
  have cmd: "ow_write_byte_ex_raw bus_drv 0xF0 ow1 = (owOK, 0xF0, ow2)"
    using write_search_cmd_bus [of ow1] by (simp add: ow1_def ow2_def)
  have at: "bus_at ow2 ds (8 * 8) []"
    using ds by (simp add: bus_at_def ow1_def ow2_def matching_def)
  have buf: "buf_rel (64 - 8 * 8) (rom ow2) (rom_bit (rom ow)) []"
    using buf_rel_start [OF len] by (simp add: ow1_def ow2_def)
  have run2: "abs_run ds (unat (disrepancy ow2)) (rom_bit (rom ow)) (8 * 8) (8 * 8) ([], 0)
                = Some (cs', nd')"
    using run by (simp add: ow1_def ow2_def)
  from search_rom_bus [OF run2 _ at buf]
  obtain ow3 where loop: "search_rom bus_drv 0 64 0 ow2 = Continue 0 (of_nat nd') ow3"
    and at3: "bus_at ow3 ds 0 cs'" and buf3: "buf_rel 64 (rom ow3) (rom_bit (rom ow)) cs'"
    by auto
  define ow' where "ow' = ow3\<lparr>disrepancy := of_nat nd'\<rparr>"
  have "ow_search_raw bus_drv ow = (owOK, Some (rom ow'), ow')"
    using d reset cmd loop
    by (simp add: ow_search_raw_def ow_search_with_command_raw_def OW_CMD_SEARCHROM_def
          OW_LAST_DEV_def search_out_def ow'_def Let_def)
  moreover have "devices (arg ow') = ds" using at3 by (simp add: bus_at_def ow'_def)
  moreover have "length (rom ow') = 8" "length cs' = 64"
    using buf_rel_length [OF buf3] by (simp_all add: ow'_def)
  moreover have "\<forall>i<64. rom_bit (rom ow') i = cs' ! i"
    using buf_rel_end [OF buf3] by (simp add: ow'_def)
  ultimately show ?thesis by (auto simp: ow'_def)
qed

section \<open>The invariant of a pass\<close>

text \<open>
  A pass on a bus with at least one slave never reads two 1 bits, and \<open>pass_inv\<close> holds
  throughout.
\<close>

lemma agrees_append: "j \<le> length cs \<Longrightarrow> agrees x (cs @ ys) j = agrees x cs j"
  by (auto simp: agrees_def nth_append)

lemma agrees_snoc:
  "length cs = n \<Longrightarrow> agrees x (cs @ [c]) (Suc n) \<longleftrightarrow> agrees x cs n \<and> bit x n = c"
  by (auto simp: agrees_def nth_append less_Suc_eq)

lemma has_zero_append: "j \<le> length cs \<Longrightarrow> has_zero ds (cs @ ys) j = has_zero ds cs j"
  by (simp add: has_zero_def agrees_append)

lemma has_one_append: "j \<le> length cs \<Longrightarrow> has_one ds (cs @ ys) j = has_one ds cs j"
  by (simp add: has_one_def agrees_append)

lemma set_matching: "set (matching ds cs) = {x \<in> set ds. agrees x cs (length cs)}"
  by (auto simp: matching_def agrees_def)

lemma some_agrees_cases:
  "\<exists>x \<in> set ds. agrees x cs j \<Longrightarrow> has_zero ds cs j \<or> has_one ds cs j"
  by (auto simp: has_zero_def has_one_def)

lemma abs_step_char:
  assumes "length cs = 64 - p" and "\<exists>x \<in> set ds. agrees x cs (64 - p)"
  shows "abs_step ds d old p (cs, nd)
           = Some (cs @ [step_bit ds d old p cs], if step_force ds d old p cs then p else nd)"
proof -
  have b: "(\<forall>x \<in> set (matching ds cs). bit x (64 - p)) \<longleftrightarrow> \<not> has_zero ds cs (64 - p)"
    and b_cpl: "(\<forall>x \<in> set (matching ds cs). \<not> bit x (64 - p)) \<longleftrightarrow> \<not> has_one ds cs (64 - p)"
    using assms(1) by (auto simp: set_matching has_zero_def has_one_def)
  from some_agrees_cases [OF assms(2)]
  have some: "has_zero ds cs (64 - p) \<or> has_one ds cs (64 - p)" .
  show ?thesis
    unfolding abs_step_def matching_def [symmetric] prod.case Let_def b b_cpl
    using some by (auto simp: step_bit_def step_force_def)
qed

lemma step_bit_one:
  assumes "\<exists>x \<in> set ds. agrees x cs (64 - p)"
  shows "step_bit ds d old p cs \<Longrightarrow> has_one ds cs (64 - p)"
    and "\<not> step_bit ds d old p cs \<Longrightarrow> has_zero ds cs (64 - p)"
  using some_agrees_cases [OF assms] by (auto simp: step_bit_def step_force_def)

lemma step_keeps_device:
  assumes "length cs = 64 - p" "0 < p" "p \<le> 64" and "\<exists>x \<in> set ds. agrees x cs (64 - p)"
  shows "\<exists>x \<in> set ds. agrees x (cs @ [step_bit ds d old p cs]) (64 - (p - 1))"
proof -
  have suc: "64 - (p - 1) = Suc (64 - p)" using assms(2,3) by simp
  show ?thesis
  proof (cases "step_bit ds d old p cs")
    case True
    from step_bit_one(1) [OF assms(4) True] assms(1) True show ?thesis
      unfolding suc by (auto simp: has_one_def agrees_snoc [OF assms(1)])
  next
    case False
    from step_bit_one(2) [OF assms(4) False] assms(1) False show ?thesis
      unfolding suc by (auto simp: has_zero_def agrees_snoc [OF assms(1)])
  qed
qed

lemma nth_snoc_length: "length cs = n \<Longrightarrow> (cs @ [c]) ! n = c"
  by auto

lemma marker_ok_step:
  assumes len: "length cs = 64 - p" and p: "0 < p" "p \<le> 64"
    and ok: "marker_ok ds cs p nd"
  shows "marker_ok ds (cs @ [step_bit ds d old p cs]) (p - 1)
           (if step_force ds d old p cs then p else nd)"
proof (cases "step_force ds d old p cs")
  case True
  then have "step_bit ds d old p cs" "has_zero ds cs (64 - p)"
    by (simp_all add: step_bit_def step_force_def)
  with True p len show ?thesis
    by (simp add: marker_ok_def nth_append has_zero_append)
next
  case False
  show ?thesis
  proof (cases "nd = 0")
    case True
    with False show ?thesis by (simp add: marker_ok_def)
  next
    case nz: False
    with ok have a: "p < nd" "nd \<le> 64" "cs ! (64 - nd)" "has_zero ds cs (64 - nd)"
      by (simp_all add: marker_ok_def)
    then have "64 - nd < length cs" using len p by simp
    with a False show ?thesis
      by (simp add: marker_ok_def nth_append has_zero_append)
  qed
qed

lemma marker_last_step:
  assumes len: "length cs = 64 - p" and p: "0 < p" "p \<le> 64"
    and last: "marker_last ds cs nd"
  shows "marker_last ds (cs @ [step_bit ds d old p cs])
           (if step_force ds d old p cs then p else nd)"
  unfolding marker_last_def
proof (intro allI impI)
  fix j
  assume j: "j < length (cs @ [step_bit ds d old p cs])"
    and h: "(cs @ [step_bit ds d old p cs]) ! j \<and> has_zero ds (cs @ [step_bit ds d old p cs]) j"
  show "(if step_force ds d old p cs then p else nd) \<noteq> 0
          \<and> j \<le> 64 - (if step_force ds d old p cs then p else nd)"
  proof (cases "j < length cs")
    case True
    with h have "cs ! j \<and> has_zero ds cs j" by (simp add: nth_append has_zero_append)
    with last True have "nd \<noteq> 0 \<and> j \<le> 64 - nd" by (simp add: marker_last_def)
    with True len p show ?thesis by simp
  next
    case False
    with j have jl: "j = length cs" by simp
    with h have "step_bit ds d old p cs" "has_zero ds cs (64 - p)"
      using len by (simp_all add: has_zero_append nth_snoc_length)
    then have "step_force ds d old p cs" by (simp add: step_bit_def)
    with jl len p show ?thesis by simp
  qed
qed

lemma greedy_step:
  assumes len: "length cs = 64 - p" and p: "0 < p" "p \<le> 64"
    and some: "\<exists>x \<in> set ds. agrees x cs (64 - p)"
    and gr: "greedy ds d cs"
  shows "greedy ds d (cs @ [step_bit ds d old p cs])"
  unfolding greedy_def
proof (intro allI impI)
  fix j
  assume j: "j < length (cs @ [step_bit ds d old p cs])" and jd: "64 - j < d"
  show "(cs @ [step_bit ds d old p cs]) ! j \<longleftrightarrow> has_one ds (cs @ [step_bit ds d old p cs]) j"
  proof (cases "j < length cs")
    case True
    with gr jd show ?thesis by (simp add: greedy_def nth_append has_one_append)
  next
    case False
    with j have jl: "j = length cs" by simp
    with jd len p have pd: "p < d" by simp
    from some_agrees_cases [OF some] pd
    have "step_bit ds d old p cs \<longleftrightarrow> has_one ds cs (64 - p)"
      by (auto simp: step_bit_def step_force_def)
    with jl len show ?thesis by (simp add: has_one_append nth_snoc_length)
  qed
qed

lemma followed_step:
  assumes len: "length cs = 64 - p" and p: "0 < p" "p \<le> 64"
    and fo: "follows ds d old" and fd: "followed d old cs"
  shows "followed d old (cs @ [step_bit ds d old p cs])"
proof -
  from fo obtain w where d: "1 \<le> d" "d \<le> 64" and w: "w \<in> set ds"
    and wold: "\<forall>k<64 - d. bit w k = old k" and w0: "\<not> bit w (64 - d)"
    by (auto simp: follows_def)
  from fd have old: "\<forall>j<length cs. j < 64 - d \<longrightarrow> cs ! j = old j"
    and zero: "64 - d < length cs \<longrightarrow> \<not> cs ! (64 - d)"
    by (simp_all add: followed_def)
  have before: "step_bit ds d old p cs = old (64 - p)" if lt: "64 - p < 64 - d"
  proof -
    from lt have pd: "d < p" by simp
    have ag: "agrees w cs (64 - p)"
      unfolding agrees_def using wold old lt len by auto
    from wold lt have wb: "bit w (64 - p) = old (64 - p)" by simp
    show ?thesis
    proof (cases "old (64 - p)")
      case True
      with ag wb w have "has_one ds cs (64 - p)" by (auto simp: has_one_def)
      with True pd show ?thesis by (auto simp: step_bit_def step_force_def)
    next
      case False
      with ag wb w have "has_zero ds cs (64 - p)" by (auto simp: has_zero_def)
      with False pd show ?thesis by (auto simp: step_bit_def step_force_def)
    qed
  qed
  have at: "\<not> step_bit ds d old p cs" if eq: "64 - d = 64 - p"
  proof -
    from eq d p have pd: "p = d" by simp
    have ag: "agrees w cs (64 - p)"
      unfolding agrees_def using wold old eq len by auto
    with w0 eq w have "has_zero ds cs (64 - p)" by (auto simp: has_zero_def)
    with pd show ?thesis by (auto simp: step_bit_def step_force_def)
  qed
  show ?thesis
    unfolding followed_def
  proof (intro conjI allI impI)
    fix j
    assume j: "j < length (cs @ [step_bit ds d old p cs])" and jd: "j < 64 - d"
    show "(cs @ [step_bit ds d old p cs]) ! j = old j"
    proof (cases "j < length cs")
      case True
      with old jd show ?thesis by (simp add: nth_append)
    next
      case False
      with j have jl: "j = 64 - p" using len by simp
      with before jd len show ?thesis by (simp add: nth_snoc_length)
    qed
  next
    assume lt: "64 - d < length (cs @ [step_bit ds d old p cs])"
    show "\<not> (cs @ [step_bit ds d old p cs]) ! (64 - d)"
    proof (cases "64 - d < length cs")
      case True
      with zero show ?thesis by (simp add: nth_append)
    next
      case False
      with lt have eq: "64 - d = 64 - p" using len by simp
      from at [OF eq] len show ?thesis unfolding eq by (simp add: nth_snoc_length)
    qed
  qed
qed

lemma pass_inv_step:
  assumes inv: "pass_inv ds d old p cs nd" and p: "0 < p"
  shows "\<exists>cs' nd'. abs_step ds d old p (cs, nd) = Some (cs', nd')
           \<and> pass_inv ds d old (p - 1) cs' nd'"
proof -
  from inv have p64: "p \<le> 64" and len: "length cs = 64 - p"
    and some: "\<exists>x \<in> set ds. agrees x cs (64 - p)"
    and ok: "marker_ok ds cs p nd" and last: "marker_last ds cs nd"
    and fo: "follows ds d old \<longrightarrow> followed d old cs" and gr: "greedy ds d cs"
    by (simp_all add: pass_inv_def)
  let ?c = "step_bit ds d old p cs"
  let ?nd = "if step_force ds d old p cs then p else nd"
  have len': "length (cs @ [?c]) = 64 - (p - 1)" using len p p64 by simp
  have "pass_inv ds d old (p - 1) (cs @ [?c]) ?nd"
    unfolding pass_inv_def
    using p64 len' step_keeps_device [OF len p p64 some] marker_ok_step [OF len p p64 ok]
      marker_last_step [OF len p p64 last] greedy_step [OF len p p64 some gr]
      followed_step [OF len p p64] fo
    by auto
  with abs_step_char [OF len some] show ?thesis by blast
qed

lemma pass_inv_run:
  assumes "pass_inv ds d old p cs nd" and "j \<le> p"
  shows "\<exists>cs' nd'. abs_run ds d old p j (cs, nd) = Some (cs', nd')
           \<and> pass_inv ds d old (p - j) cs' nd'"
  using assms
proof (induction j arbitrary: p cs nd)
  case 0
  then show ?case by simp
next
  case (Suc j)
  from Suc.prems(2) have p0: "0 < p" by simp
  from pass_inv_step [OF Suc.prems(1) p0] obtain cs1 nd1
    where st: "abs_step ds d old p (cs, nd) = Some (cs1, nd1)"
      and inv1: "pass_inv ds d old (p - 1) cs1 nd1"
    by blast
  from Suc.prems(2) have "j \<le> p - 1" by simp
  from Suc.IH [OF inv1 this] st show ?case by simp
qed

lemma pass_inv_start: "ds \<noteq> [] \<Longrightarrow> pass_inv ds d old 64 [] 0"
  by (auto simp: pass_inv_def agrees_def marker_ok_def marker_last_def followed_def greedy_def
        neq_Nil_conv)

section \<open>The order of the ROMs\<close>

lemma bits_less_iff:
  fixes xs ys :: "bool list"
  assumes "length xs = length ys"
  shows "xs < ys \<longleftrightarrow> (\<exists>e<length xs. (\<forall>k<e. xs ! k = ys ! k) \<and> \<not> xs ! e \<and> ys ! e)"
proof -
  have tk: "take e xs = take e ys \<longleftrightarrow> (\<forall>k<e. xs ! k = ys ! k)" if "e < length xs" for e
    using that assms by (auto simp: list_eq_iff_nth_eq)
  have "xs < ys \<longleftrightarrow> (\<exists>e<length xs. take e xs = take e ys \<and> xs ! e < ys ! e)"
    using assms by (auto simp: list_less_def lexord_take_index_conv)
  also have "\<dots> \<longleftrightarrow> (\<exists>e<length xs. (\<forall>k<e. xs ! k = ys ! k) \<and> \<not> xs ! e \<and> ys ! e)"
    using tk by auto
  finally show ?thesis .
qed

lemma bits_first_diff:
  fixes xs ys :: "bool list"
  assumes "length xs = length ys" "xs \<noteq> ys"
  shows "\<exists>f<length xs. (\<forall>k<f. xs ! k = ys ! k) \<and> xs ! f \<noteq> ys ! f"
proof -
  from assms have "xs < ys \<or> ys < xs" by auto
  then show ?thesis
    using bits_less_iff [OF assms(1)] bits_less_iff [OF assms(1) [symmetric]] assms(1)
    by (metis (full_types))
qed

lemma rom_of_nth: "k < 8 \<Longrightarrow> rom_of w ! k = ucast (drop_bit (8 * k) w)"
  by (simp add: rom_of_def)

lemma length_rom_of: "length (rom_of w) = 8"
  by (simp add: rom_of_def)

lemma rom_bit_rom_of: "i < 64 \<Longrightarrow> rom_bit (rom_of w) i = bit w i"
proof -
  assume i: "i < 64"
  then have k: "i div 8 < 8" by simp
  have "bit (ucast (drop_bit (8 * (i div 8)) w) :: uint8_t) (i mod 8) = bit w (8 * (i div 8) + i mod 8)"
    by (simp add: bit_simps)
  then show ?thesis by (simp add: rom_bit_def rom_of_nth [OF k])
qed

lemma rom_eq_rom_of:
  assumes "length r = 8" "\<forall>i<64. rom_bit r i = bit w i"
  shows "r = rom_of w"
proof (rule nth_equalityI)
  show "length r = length (rom_of w)" using assms(1) by (simp add: length_rom_of)
next
  fix k
  assume "k < length r"
  with assms(1) have k: "k < 8" by simp
  have "r ! k = (ucast (drop_bit (8 * k) w) :: uint8_t)"
  proof (rule bit_word_eqI)
    fix t
    assume "t < LENGTH(8)"
    then have t: "t < 8" by simp
    with k have i: "8 * k + t < 64" by simp
    from assms(2) i have "rom_bit r (8 * k + t) = bit w (8 * k + t)" by blast
    with t show "bit (r ! k) t = bit (ucast (drop_bit (8 * k) w) :: uint8_t) t"
      by (simp add: rom_bit_def bit_simps)
  qed
  with k show "r ! k = rom_of w ! k" by (simp add: rom_of_nth)
qed

lemma wire_bits_nth: "i < 64 \<Longrightarrow> wire_bits r ! i = rom_bit r i"
  by (simp add: wire_bits_def)

lemma length_wire_bits: "length (wire_bits r) = 64"
  by (simp add: wire_bits_def)

lemma wire_bits_eqI:
  assumes "length cs = 64" "\<forall>i<64. rom_bit r i = cs ! i"
  shows "wire_bits r = cs"
  using assms by (auto simp: wire_bits_def list_eq_iff_nth_eq)

lemma agrees_rom_of:
  "j \<le> 64 \<Longrightarrow> agrees w (wire_bits (rom_of x)) j \<longleftrightarrow> (\<forall>k<j. bit w k = bit x k)"
  by (auto simp: agrees_def wire_bits_nth rom_bit_rom_of)

lemma agrees_all_eq:
  assumes "agrees w cs 64" "length cs = 64"
  shows "wire_bits (rom_of w) = cs"
  using assms by (auto intro!: wire_bits_eqI simp: agrees_def rom_bit_rom_of)

lemma search_call:
  assumes ds: "devices (arg ow) = ds" "ds \<noteq> []" and len: "length (rom ow) = 8"
    and d: "disrepancy ow \<noteq> 0"
  shows "\<exists>ow'. ow_search_raw bus_drv ow = (owOK, Some (rom ow'), ow') \<and> enum_inv ds ow'
           \<and> (follows ds (unat (disrepancy ow)) (rom_bit (rom ow))
                \<longrightarrow> followed (unat (disrepancy ow)) (rom_bit (rom ow)) (wire_bits (rom ow')))
           \<and> greedy ds (unat (disrepancy ow)) (wire_bits (rom ow'))"
proof -
  let ?d = "unat (disrepancy ow)" and ?old = "rom_bit (rom ow)"
  from pass_inv_run [OF pass_inv_start [OF ds(2)], of 64 ?d ?old]
  obtain cs' nd' where run: "abs_run ds ?d ?old 64 64 ([], 0) = Some (cs', nd')"
    and inv: "pass_inv ds ?d ?old 0 cs' nd'"
    by auto
  from ow_search_raw_bus [OF d ds len run]
  obtain ow' where call: "ow_search_raw bus_drv ow = (owOK, Some (rom ow'), ow')"
    and d': "disrepancy ow' = of_nat nd'" and ds': "devices (arg ow') = ds"
    and len': "length (rom ow') = 8" and lcs: "length cs' = 64"
    and bits: "\<forall>i<64. rom_bit (rom ow') i = cs' ! i"
    by blast
  from wire_bits_eqI [OF lcs bits] have cs: "wire_bits (rom ow') = cs'" .
  from inv have ok: "marker_ok ds cs' 0 nd'" and last: "marker_last ds cs' nd'"
    and some: "\<exists>x \<in> set ds. agrees x cs' 64"
    and fo: "follows ds ?d ?old \<longrightarrow> followed ?d ?old cs'" and gr: "greedy ds ?d cs'"
    by (simp_all add: pass_inv_def)
  from ok have "nd' \<le> 64" by (auto simp: marker_ok_def)
  then have nd: "unat (disrepancy ow') = nd'"
    by (simp add: d' unat_of_nat)
  have "enum_inv ds ow'"
    using ds' len' nd \<open>nd' \<le> 64\<close> some ok last by (simp add: enum_inv_def cs)
  with call fo gr cs show ?thesis by auto
qed

lemma dev_bits_nth: "k < 64 \<Longrightarrow> wire_bits (rom_of w) ! k = bit w k"
  by (simp add: wire_bits_nth rom_bit_rom_of)

lemma greedy_max:
  assumes gr: "greedy ds d cs" and len: "length cs = 64" and w: "w \<in> set ds"
    and ag: "agrees w cs i0" and reg: "\<forall>j. i0 \<le> j \<and> j < 64 \<longrightarrow> 64 - j < d"
  shows "wire_bits (rom_of w) = cs \<or> wire_bits (rom_of w) < cs"
proof (cases "wire_bits (rom_of w) = cs")
  case True
  then show ?thesis by simp
next
  case False
  have l: "length (wire_bits (rom_of w)) = length cs" by (simp add: len length_wire_bits)
  from bits_first_diff [OF l False]
  obtain f where f: "f < 64" and same0: "\<forall>k<f. wire_bits (rom_of w) ! k = cs ! k"
    and diff0: "wire_bits (rom_of w) ! f \<noteq> cs ! f"
    by (auto simp: length_wire_bits)
  from diff0 f have diff: "bit w f \<noteq> cs ! f" by (simp add: dev_bits_nth)
  have same: "\<forall>k<f. bit w k = cs ! k"
  proof (intro allI impI)
    fix k assume "k < f"
    with f same0 have "k < 64" "wire_bits (rom_of w) ! k = cs ! k" by simp_all
    then show "bit w k = cs ! k" by (simp add: dev_bits_nth)
  qed
  have "i0 \<le> f"
  proof (rule ccontr)
    assume "\<not> i0 \<le> f"
    with ag diff show False by (simp add: agrees_def)
  qed
  with reg f have "64 - f < d" by simp
  with gr f len have g: "cs ! f \<longleftrightarrow> has_one ds cs f" by (simp add: greedy_def)
  have "\<not> bit w f"
  proof
    assume "bit w f"
    with w same have "has_one ds cs f" by (auto simp: has_one_def agrees_def)
    with g diff \<open>bit w f\<close> show False by simp
  qed
  with diff have "cs ! f" by simp
  with \<open>\<not> bit w f\<close> same0 f have "wire_bits (rom_of w) < cs"
    unfolding bits_less_iff [OF l] by (auto simp: length_wire_bits dev_bits_nth intro!: exI [of _ f])
  then show ?thesis by simp
qed

lemma below_none:
  assumes last: "marker_last ds cs 0" and len: "length cs = 64" and w: "w \<in> set ds"
  shows "\<not> wire_bits (rom_of w) < cs"
proof
  assume less: "wire_bits (rom_of w) < cs"
  have l: "length (wire_bits (rom_of w)) = length cs" by (simp add: len length_wire_bits)
  from less obtain e where e: "e < 64" and same0: "\<forall>k<e. wire_bits (rom_of w) ! k = cs ! k"
    and we0: "\<not> wire_bits (rom_of w) ! e" and ce: "cs ! e"
    unfolding bits_less_iff [OF l] by (auto simp: length_wire_bits)
  from we0 e have we: "\<not> bit w e" by (simp add: dev_bits_nth)
  have same: "\<forall>k<e. bit w k = cs ! k"
  proof (intro allI impI)
    fix k assume "k < e"
    with e same0 have "k < 64" "wire_bits (rom_of w) ! k = cs ! k" by simp_all
    then show "bit w k = cs ! k" by (simp add: dev_bits_nth)
  qed
  from w same we have "has_zero ds cs e" by (auto simp: has_zero_def agrees_def)
  with last ce e len show False by (auto simp: marker_last_def)
qed

lemma dev_less_iff:
  assumes "length cs = 64"
  shows "wire_bits (rom_of w) < cs
           \<longleftrightarrow> (\<exists>e<64. (\<forall>k<e. bit w k = cs ! k) \<and> \<not> bit w e \<and> cs ! e)"
proof -
  have l: "length (wire_bits (rom_of w)) = length cs" by (simp add: assms length_wire_bits)
  have "(\<forall>k<e. wire_bits (rom_of w) ! k = cs ! k) \<longleftrightarrow> (\<forall>k<e. bit w k = cs ! k)"
    if "e < 64" for e
  proof -
    have "wire_bits (rom_of w) ! k = bit w k" if "k < e" for k
      using that \<open>e < 64\<close> by (simp add: dev_bits_nth)
    then show ?thesis by auto
  qed
  then show ?thesis
    unfolding bits_less_iff [OF l] by (auto simp: length_wire_bits dev_bits_nth)
qed

lemma next_below:
  assumes inv: "enum_inv ds ow" and d: "disrepancy ow \<noteq> 0"
    and len: "length cs' = 64"
    and fd: "follows ds (unat (disrepancy ow)) (rom_bit (rom ow))
               \<longrightarrow> followed (unat (disrepancy ow)) (rom_bit (rom ow)) cs'"
    and gr: "greedy ds (unat (disrepancy ow)) cs'"
  shows "cs' < wire_bits (rom ow)"
    and "\<forall>w \<in> set ds. wire_bits (rom_of w) < wire_bits (rom ow)
           \<longrightarrow> wire_bits (rom_of w) = cs' \<or> wire_bits (rom_of w) < cs'"
proof -
  let ?d = "unat (disrepancy ow)" and ?cs = "wire_bits (rom ow)"
  from d have d0: "?d \<noteq> 0" by (simp add: unat_eq_0)
  from inv d0 have dr: "0 < ?d" "?d \<le> 64" and top: "?cs ! (64 - ?d)"
    and hz: "has_zero ds ?cs (64 - ?d)" and last: "marker_last ds ?cs ?d"
    by (auto simp: enum_inv_def marker_ok_def)
  have old: "rom_bit (rom ow) k = ?cs ! k" if "k < 64" for k
    using that by (simp add: wire_bits_nth)
  from hz obtain w0 where w0: "w0 \<in> set ds" "\<forall>k<64 - ?d. bit w0 k = ?cs ! k"
    "\<not> bit w0 (64 - ?d)"
    by (auto simp: has_zero_def agrees_def)
  have "follows ds ?d (rom_bit (rom ow))"
    unfolding follows_def using dr w0 old by auto
  with fd have "followed ?d (rom_bit (rom ow)) cs'" by simp
  with len dr have same: "\<forall>j<64 - ?d. cs' ! j = ?cs ! j" and zero: "\<not> cs' ! (64 - ?d)"
    using old by (auto simp: followed_def)
  have l: "length cs' = length ?cs" by (simp add: len length_wire_bits)
  show less: "cs' < ?cs"
    unfolding bits_less_iff [OF l] using same zero top dr len
    by (auto intro!: exI [of _ "64 - ?d"])
  show "\<forall>w \<in> set ds. wire_bits (rom_of w) < ?cs
           \<longrightarrow> wire_bits (rom_of w) = cs' \<or> wire_bits (rom_of w) < cs'"
  proof (intro ballI impI)
    fix w
    assume w: "w \<in> set ds" and wl: "wire_bits (rom_of w) < ?cs"
    from wl obtain e where e: "e < 64" and we: "\<forall>k<e. bit w k = ?cs ! k" "\<not> bit w e" "?cs ! e"
      unfolding dev_less_iff [OF length_wire_bits] by blast
    from w we have "has_zero ds ?cs e" by (auto simp: has_zero_def agrees_def)
    with last we(3) e have ele: "e \<le> 64 - ?d" by (auto simp: marker_last_def length_wire_bits)
    show "wire_bits (rom_of w) = cs' \<or> wire_bits (rom_of w) < cs'"
    proof (cases "e < 64 - ?d")
      case True
      with same we have "\<forall>k<e. bit w k = cs' ! k" "cs' ! e" by auto
      with we(2) e have "wire_bits (rom_of w) < cs'"
        unfolding dev_less_iff [OF len] by blast
      then show ?thesis by simp
    next
      case False
      with ele have eq: "e = 64 - ?d" by simp
      have "agrees w cs' (Suc e)"
        unfolding agrees_def using we(1,2) same zero eq by (auto simp: less_Suc_eq)
      moreover have "\<forall>j. Suc e \<le> j \<and> j < 64 \<longrightarrow> 64 - j < ?d"
        using eq dr by auto
      ultimately show ?thesis
        using greedy_max [OF gr len w] by blast
    qed
  qed
qed

lemma finite_below: "finite (below ds cs)"
  by (simp add: below_def)

lemma enum_inv_rom:
  assumes "enum_inv ds ow"
  shows "rom ow \<in> rom_of ` set ds"
proof -
  from assms obtain x where x: "x \<in> set ds" "agrees x (wire_bits (rom ow)) 64"
    and len: "length (rom ow) = 8"
    by (auto simp: enum_inv_def)
  have "\<forall>i<64. rom_bit (rom ow) i = bit x i"
    using x(2) by (simp add: agrees_def wire_bits_nth)
  from rom_eq_rom_of [OF len this] x(1) show ?thesis by simp
qed

lemma wire_bits_rom_of_inj:
  assumes "wire_bits (rom_of w) = wire_bits r" "length r = 8"
  shows "rom_of w = r"
proof -
  have "\<forall>i<64. rom_bit r i = bit w i"
  proof (intro allI impI)
    fix i :: nat assume i: "i < 64"
    from assms(1) have "wire_bits (rom_of w) ! i = wire_bits r ! i" by simp
    with i show "rom_bit r i = bit w i" by (simp add: wire_bits_nth rom_bit_rom_of)
  qed
  from rom_eq_rom_of [OF assms(2) this] show ?thesis by simp
qed

lemma search_nodev:
  "disrepancy ow = 0 \<Longrightarrow>
     ow_search_with_command_raw drv cmd ow = (owERRNODEV, None, ow\<lparr>disrepancy := OW_FIRST_DEV\<rparr>)"
  by (simp add: ow_search_with_command_raw_def ow_search_reset_raw_def)

lemma search_next:
  assumes inv: "enum_inv ds ow" and ne: "ds \<noteq> []" and d: "disrepancy ow \<noteq> 0"
  shows "\<exists>ow1. ow_search_raw bus_drv ow = (owOK, Some (rom ow1), ow1) \<and> enum_inv ds ow1
           \<and> below ds (wire_bits (rom ow)) = insert (rom ow1) (below ds (wire_bits (rom ow1)))
           \<and> rom ow1 \<notin> below ds (wire_bits (rom ow1))"
proof -
  let ?cs = "wire_bits (rom ow)"
  from inv have ds: "devices (arg ow) = ds" and len: "length (rom ow) = 8"
    by (simp_all add: enum_inv_def)
  from search_call [OF ds ne len d]
  obtain ow1 where call: "ow_search_raw bus_drv ow = (owOK, Some (rom ow1), ow1)"
    and inv1: "enum_inv ds ow1"
    and fd: "follows ds (unat (disrepancy ow)) (rom_bit (rom ow))
               \<longrightarrow> followed (unat (disrepancy ow)) (rom_bit (rom ow)) (wire_bits (rom ow1))"
    and gr: "greedy ds (unat (disrepancy ow)) (wire_bits (rom ow1))"
    by blast
  let ?cs1 = "wire_bits (rom ow1)"
  from next_below [OF inv d length_wire_bits fd gr]
  have lt: "?cs1 < ?cs"
    and pred: "\<forall>w \<in> set ds. wire_bits (rom_of w) < ?cs
                 \<longrightarrow> wire_bits (rom_of w) = ?cs1 \<or> wire_bits (rom_of w) < ?cs1"
    by blast+
  from inv1 have len1: "length (rom ow1) = 8" by (simp add: enum_inv_def)
  from enum_inv_rom [OF inv1] have mem1: "rom ow1 \<in> rom_of ` set ds" .
  have "below ds ?cs = insert (rom ow1) (below ds ?cs1)"
  proof (intro set_eqI iffI)
    fix r
    assume "r \<in> below ds ?cs"
    then obtain w where w: "w \<in> set ds" "r = rom_of w" "wire_bits (rom_of w) < ?cs"
      by (auto simp: below_def)
    from pred w have "wire_bits (rom_of w) = ?cs1 \<or> wire_bits (rom_of w) < ?cs1" by blast
    then show "r \<in> insert (rom ow1) (below ds ?cs1)"
    proof
      assume "wire_bits (rom_of w) = ?cs1"
      from wire_bits_rom_of_inj [OF this len1] w(2) show ?thesis by simp
    next
      assume "wire_bits (rom_of w) < ?cs1"
      with w show ?thesis by (auto simp: below_def)
    qed
  next
    fix r
    assume "r \<in> insert (rom ow1) (below ds ?cs1)"
    with mem1 lt show "r \<in> below ds ?cs" by (auto simp: below_def)
  qed
  moreover have "rom ow1 \<notin> below ds ?cs1" by (simp add: below_def)
  ultimately show ?thesis using call inv1 by blast
qed

lemma search_first:
  assumes ds: "devices (arg ow) = ds" "ds \<noteq> []" and len: "length (rom ow) = 8"
  shows "\<exists>ow1. ow_search_raw bus_drv (snd (ow_search_reset_raw ow)) = (owOK, Some (rom ow1), ow1)
           \<and> enum_inv ds ow1
           \<and> rom_of ` set ds = insert (rom ow1) (below ds (wire_bits (rom ow1)))
           \<and> rom ow1 \<notin> below ds (wire_bits (rom ow1))"
proof -
  let ?ow0 = "snd (ow_search_reset_raw ow)"
  have ds0: "devices (arg ?ow0) = ds" and len0: "length (rom ?ow0) = 8"
    and d0: "disrepancy ?ow0 \<noteq> 0" and u0: "unat (disrepancy ?ow0) = 255"
    using ds len by (simp_all add: ow_search_reset_raw_def OW_FIRST_DEV_def)
  from search_call [OF ds0 ds(2) len0 d0]
  obtain ow1 where call: "ow_search_raw bus_drv ?ow0 = (owOK, Some (rom ow1), ow1)"
    and inv1: "enum_inv ds ow1" and gr: "greedy ds 255 (wire_bits (rom ow1))"
    unfolding u0 by blast
  let ?cs1 = "wire_bits (rom ow1)"
  from inv1 have len1: "length (rom ow1) = 8" by (simp add: enum_inv_def)
  have "64 - j < (255 :: nat)" for j :: nat by arith
  then have reg: "\<forall>j. 0 \<le> j \<and> j < 64 \<longrightarrow> 64 - j < (255 :: nat)" by blast
  have ag0: "agrees w ?cs1 0" for w by (simp add: agrees_def)
  have top: "wire_bits (rom_of w) = ?cs1 \<or> wire_bits (rom_of w) < ?cs1" if "w \<in> set ds" for w
    using greedy_max [OF gr length_wire_bits that ag0 reg] .
  have "rom_of ` set ds = insert (rom ow1) (below ds ?cs1)"
  proof (intro set_eqI iffI)
    fix r
    assume "r \<in> rom_of ` set ds"
    then obtain w where w: "w \<in> set ds" "r = rom_of w" by auto
    from top [OF w(1)] show "r \<in> insert (rom ow1) (below ds ?cs1)"
    proof
      assume "wire_bits (rom_of w) = ?cs1"
      from wire_bits_rom_of_inj [OF this len1] w(2) show ?thesis by simp
    next
      assume "wire_bits (rom_of w) < ?cs1"
      with w show ?thesis by (auto simp: below_def)
    qed
  next
    fix r
    assume "r \<in> insert (rom ow1) (below ds ?cs1)"
    with enum_inv_rom [OF inv1] show "r \<in> rom_of ` set ds" by (auto simp: below_def)
  qed
  moreover have "rom ow1 \<notin> below ds ?cs1" by (simp add: below_def)
  ultimately show ?thesis using call inv1 by blast
qed

lemma below_last:
  assumes "enum_inv ds ow" "disrepancy ow = 0"
  shows "below ds (wire_bits (rom ow)) = {}"
proof -
  from assms have "marker_last ds (wire_bits (rom ow)) 0"
    by (simp add: enum_inv_def)
  then show ?thesis
    using below_none [OF _ length_wire_bits] by (auto simp: below_def)
qed

lemma enumerate_below:
  assumes "enum_inv ds ow" "ds \<noteq> []"
  shows "\<exists>roms ow'. search_cb_loop bus_drv OW_CMD_SEARCHROM collect_visitor i ow u
                       = Some (owERRNODEV, i + length roms, ow', u @ roms)
           \<and> sorted_wrt (\<lambda>a b. wire_bits b < wire_bits a) roms
           \<and> set roms = below ds (wire_bits (rom ow))"
  using assms
proof (induction "card (below ds (wire_bits (rom ow)))" arbitrary: ow i u rule: less_induct)
  case less
  show ?case
  proof (cases "disrepancy ow = 0")
    case True
    from search_nodev [OF True]
    have "search_cb_loop bus_drv OW_CMD_SEARCHROM collect_visitor i ow u
            = Some (owERRNODEV, i, ow\<lparr>disrepancy := OW_FIRST_DEV\<rparr>, u)"
      by (subst search_cb_loop.simps) simp
    with below_last [OF less.prems(1) True] show ?thesis by simp
  next
    case False
    from search_next [OF less.prems False]
    obtain ow1 where call: "ow_search_raw bus_drv ow = (owOK, Some (rom ow1), ow1)"
      and inv1: "enum_inv ds ow1"
      and split: "below ds (wire_bits (rom ow))
                    = insert (rom ow1) (below ds (wire_bits (rom ow1)))"
      and notin: "rom ow1 \<notin> below ds (wire_bits (rom ow1))"
      by blast
    from split notin
    have "card (below ds (wire_bits (rom ow1))) < card (below ds (wire_bits (rom ow)))"
      by (simp add: finite_below)
    from less.hyps [OF this inv1 less.prems(2), of "i + 1" "u @ [rom ow1]"]
    obtain roms ow' where
      rec: "search_cb_loop bus_drv OW_CMD_SEARCHROM collect_visitor (i + 1) ow1 (u @ [rom ow1])
              = Some (owERRNODEV, i + 1 + length roms, ow', (u @ [rom ow1]) @ roms)"
      and srt: "sorted_wrt (\<lambda>a b. wire_bits b < wire_bits a) roms"
      and st: "set roms = below ds (wire_bits (rom ow1))"
      by blast
    have "search_cb_loop bus_drv OW_CMD_SEARCHROM collect_visitor i ow u
            = Some (owERRNODEV, i + length (rom ow1 # roms), ow', u @ (rom ow1 # roms))"
      using call rec
      by (subst search_cb_loop.simps) (simp add: ow_search_raw_def collect_visitor_def)
    moreover have "sorted_wrt (\<lambda>a b. wire_bits b < wire_bits a) (rom ow1 # roms)"
      using srt st by (simp add: below_def)
    moreover have "set (rom ow1 # roms) = below ds (wire_bits (rom ow))"
      using st split by simp
    ultimately show ?thesis by blast
  qed
qed

lemma enumerate_all:
  assumes ds: "devices (arg ow) = ds" "ds \<noteq> []" and len: "length (rom ow) = 8"
  shows "\<exists>roms ow'. search_cb_loop bus_drv OW_CMD_SEARCHROM collect_visitor 0
                        (snd (ow_search_reset_raw ow)) []
                       = Some (owERRNODEV, length roms, ow', roms)
           \<and> sorted_wrt (\<lambda>a b. wire_bits b < wire_bits a) roms
           \<and> set roms = rom_of ` set ds"
proof -
  from search_first [OF ds len]
  obtain ow1 where
    call: "ow_search_raw bus_drv (snd (ow_search_reset_raw ow)) = (owOK, Some (rom ow1), ow1)"
    and inv1: "enum_inv ds ow1"
    and all: "rom_of ` set ds = insert (rom ow1) (below ds (wire_bits (rom ow1)))"
    by blast
  from enumerate_below [OF inv1 ds(2), of 1 "[rom ow1]"]
  obtain roms ow' where
    rec: "search_cb_loop bus_drv OW_CMD_SEARCHROM collect_visitor 1 ow1 [rom ow1]
            = Some (owERRNODEV, 1 + length roms, ow', [rom ow1] @ roms)"
    and srt: "sorted_wrt (\<lambda>a b. wire_bits b < wire_bits a) roms"
    and st: "set roms = below ds (wire_bits (rom ow1))"
    by blast
  have "search_cb_loop bus_drv OW_CMD_SEARCHROM collect_visitor 0
          (snd (ow_search_reset_raw ow)) []
          = Some (owERRNODEV, length (rom ow1 # roms), ow', rom ow1 # roms)"
    using call rec
    by (subst search_cb_loop.simps) (simp add: ow_search_raw_def collect_visitor_def)
  moreover have "sorted_wrt (\<lambda>a b. wire_bits b < wire_bits a) (rom ow1 # roms)"
    using srt st by (simp add: below_def)
  moreover have "set (rom ow1 # roms) = rom_of ` set ds"
    using st all by simp
  ultimately show ?thesis by blast
qed

lemma devices_loop_below:
  assumes "enum_inv ds ow" "ds \<noteq> []"
    and "cnt + card (below ds (wire_bits (rom ow))) < length arr"
  shows "\<exists>roms ow'. search_devices_loop bus_drv OW_CMD_SEARCHROM cnt res arr ow
                       = (owERRNODEV, cnt + length roms,
                          take cnt arr @ roms @ drop (cnt + length roms) arr, ow')
           \<and> sorted_wrt (\<lambda>a b. wire_bits b < wire_bits a) roms
           \<and> set roms = below ds (wire_bits (rom ow))"
  using assms
proof (induction "card (below ds (wire_bits (rom ow)))" arbitrary: ow cnt res arr rule: less_induct)
  case less
  from less.prems(3) have cnt: "cnt < length arr" by simp
  show ?case
  proof (cases "disrepancy ow = 0")
    case True
    from search_nodev [OF True] cnt
    have "search_devices_loop bus_drv OW_CMD_SEARCHROM cnt res arr ow
            = (owERRNODEV, cnt, arr, ow\<lparr>disrepancy := OW_FIRST_DEV\<rparr>)"
      by (subst search_devices_loop.simps) simp
    with below_last [OF less.prems(1) True] show ?thesis by simp
  next
    case False
    from search_next [OF less.prems(1,2) False]
    obtain ow1 where call: "ow_search_raw bus_drv ow = (owOK, Some (rom ow1), ow1)"
      and inv1: "enum_inv ds ow1"
      and split: "below ds (wire_bits (rom ow))
                    = insert (rom ow1) (below ds (wire_bits (rom ow1)))"
      and notin: "rom ow1 \<notin> below ds (wire_bits (rom ow1))"
      by blast
    from split notin
    have card: "card (below ds (wire_bits (rom ow)))
                  = Suc (card (below ds (wire_bits (rom ow1))))"
      by (simp add: finite_below)
    then have smaller:
      "card (below ds (wire_bits (rom ow1))) < card (below ds (wire_bits (rom ow)))"
      by simp
    let ?arr1 = "arr[cnt := rom ow1]"
    have room: "cnt + 1 + card (below ds (wire_bits (rom ow1))) < length ?arr1"
      using less.prems(3) card by simp
    from less.hyps [OF smaller inv1 less.prems(2) room, of owOK]
    obtain roms ow' where
      rec: "search_devices_loop bus_drv OW_CMD_SEARCHROM (cnt + 1) owOK ?arr1 ow1
              = (owERRNODEV, cnt + 1 + length roms,
                 take (cnt + 1) ?arr1 @ roms @ drop (cnt + 1 + length roms) ?arr1, ow')"
      and srt: "sorted_wrt (\<lambda>a b. wire_bits b < wire_bits a) roms"
      and st: "set roms = below ds (wire_bits (rom ow1))"
      by blast
    have arr: "take (cnt + 1) ?arr1 @ roms @ drop (cnt + 1 + length roms) ?arr1
                 = take cnt arr @ (rom ow1 # roms) @ drop (cnt + length (rom ow1 # roms)) arr"
      using cnt by (simp add: take_Suc_conv_app_nth)
    have "search_devices_loop bus_drv OW_CMD_SEARCHROM cnt res arr ow
            = (owERRNODEV, cnt + length (rom ow1 # roms),
               take cnt arr @ (rom ow1 # roms) @ drop (cnt + length (rom ow1 # roms)) arr, ow')"
      using call rec cnt unfolding arr [symmetric]
      by (subst search_devices_loop.simps) (simp add: ow_search_raw_def)
    moreover have "sorted_wrt (\<lambda>a b. wire_bits b < wire_bits a) (rom ow1 # roms)"
      using srt st by (simp add: below_def)
    moreover have "set (rom ow1 # roms) = below ds (wire_bits (rom ow))"
      using st split by simp
    ultimately show ?thesis by blast
  qed
qed

lemma devices_loop_all:
  assumes ds: "devices (arg ow) = ds" "ds \<noteq> []" and len: "length (rom ow) = 8"
    and room: "card (rom_of ` set ds) < length arr"
  shows "\<exists>roms ow'. search_devices_loop bus_drv OW_CMD_SEARCHROM 0 owOK arr
                        (snd (ow_search_reset_raw ow))
                       = (owERRNODEV, length roms, roms @ drop (length roms) arr, ow')
           \<and> sorted_wrt (\<lambda>a b. wire_bits b < wire_bits a) roms
           \<and> set roms = rom_of ` set ds"
proof -
  from search_first [OF ds len]
  obtain ow1 where
    call: "ow_search_raw bus_drv (snd (ow_search_reset_raw ow)) = (owOK, Some (rom ow1), ow1)"
    and inv1: "enum_inv ds ow1"
    and all: "rom_of ` set ds = insert (rom ow1) (below ds (wire_bits (rom ow1)))"
    and notin: "rom ow1 \<notin> below ds (wire_bits (rom ow1))"
    by blast
  from all notin have "card (rom_of ` set ds) = Suc (card (below ds (wire_bits (rom ow1))))"
    by (simp add: finite_below)
  with room have room1: "1 + card (below ds (wire_bits (rom ow1))) < length (arr[0 := rom ow1])"
    by simp
  from room have pos: "0 < length arr" by (cases arr) simp_all
  from devices_loop_below [OF inv1 ds(2) room1, of owOK]
  obtain roms ow' where
    rec: "search_devices_loop bus_drv OW_CMD_SEARCHROM 1 owOK (arr[0 := rom ow1]) ow1
            = (owERRNODEV, 1 + length roms,
               take 1 (arr[0 := rom ow1]) @ roms @ drop (1 + length roms) (arr[0 := rom ow1]),
               ow')"
    and srt: "sorted_wrt (\<lambda>a b. wire_bits b < wire_bits a) roms"
    and st: "set roms = below ds (wire_bits (rom ow1))"
    by blast
  have arr: "take 1 (arr[0 := rom ow1]) @ roms @ drop (1 + length roms) (arr[0 := rom ow1])
               = (rom ow1 # roms) @ drop (length (rom ow1 # roms)) arr"
    using pos by (cases arr) simp_all
  have "search_devices_loop bus_drv OW_CMD_SEARCHROM 0 owOK arr (snd (ow_search_reset_raw ow))
          = (owERRNODEV, length (rom ow1 # roms),
             (rom ow1 # roms) @ drop (length (rom ow1 # roms)) arr, ow')"
    using call rec pos unfolding arr [symmetric]
    by (subst search_devices_loop.simps) (simp add: ow_search_raw_def)
  moreover have "sorted_wrt (\<lambda>a b. wire_bits b < wire_bits a) (rom ow1 # roms)"
    using srt st by (simp add: below_def)
  moreover have "set (rom ow1 # roms) = rom_of ` set ds"
    using st all by simp
  ultimately show ?thesis by blast
qed

lemma strict_desc_inj:
  assumes "sorted_wrt (\<lambda>a b. wire_bits b < wire_bits a) xs"
  shows "inj_on wire_bits (set xs)"
proof (rule inj_onI)
  fix a b
  assume "a \<in> set xs" "b \<in> set xs" and eq: "wire_bits a = wire_bits b"
  then obtain i j where i: "i < length xs" "xs ! i = a" and j: "j < length xs" "xs ! j = b"
    by (auto simp: in_set_conv_nth)
  show "a = b"
  proof (rule ccontr)
    assume ne: "a \<noteq> b"
    with i j have "i \<noteq> j" by auto
    then consider "i < j" | "j < i" by arith
    then show False
    proof cases
      case 1
      from sorted_wrt_nth_less [OF assms 1 j(1)] i j eq show False by simp
    next
      case 2
      from sorted_wrt_nth_less [OF assms 2 i(1)] i j eq show False by simp
    qed
  qed
qed

lemma strict_desc_unique:
  assumes xs: "sorted_wrt (\<lambda>a b. wire_bits b < wire_bits a) xs"
    and ys: "sorted_wrt (\<lambda>a b. wire_bits b < wire_bits a) ys"
    and st: "set xs = set ys"
  shows "xs = ys"
proof -
  have "sorted_wrt (<) (rev (map wire_bits xs))" "sorted_wrt (<) (rev (map wire_bits ys))"
    using xs ys by (simp_all add: sorted_wrt_rev sorted_wrt_map)
  moreover have "set (rev (map wire_bits ys)) = set (rev (map wire_bits xs))"
    using st by simp
  ultimately have "rev (map wire_bits ys) = rev (map wire_bits xs)"
    by (rule strict_sorted_equal)
  then have "map wire_bits xs = map wire_bits ys" by simp
  moreover have "inj_on wire_bits (set xs \<union> set ys)"
    using strict_desc_inj [OF xs] st by simp
  ultimately show ?thesis by (rule map_inj_on)
qed

lemma search_loop_sorted:
  assumes ds: "devices (arg ow) = ds" "ds \<noteq> []" and len: "length (rom ow) = 8"
    and xs: "sorted_wrt (\<lambda>a b. wire_bits b < wire_bits a) xs" "set xs = rom_of ` set ds"
  shows "\<exists>ow'. search_cb_loop bus_drv OW_CMD_SEARCHROM collect_visitor 0
                   (snd (ow_search_reset_raw ow)) [] = Some (owERRNODEV, length xs, ow', xs)"
proof -
  from enumerate_all [OF ds len] obtain roms ow'
    where run: "search_cb_loop bus_drv OW_CMD_SEARCHROM collect_visitor 0
                  (snd (ow_search_reset_raw ow)) [] = Some (owERRNODEV, length roms, ow', roms)"
      and srt: "sorted_wrt (\<lambda>a b. wire_bits b < wire_bits a) roms"
      and st: "set roms = rom_of ` set ds"
    by blast
  from strict_desc_unique [OF srt xs(1)] st xs(2) have "roms = xs" by simp
  with run show ?thesis by blast
qed

lemma devices_loop_sorted:
  assumes ds: "devices (arg ow) = ds" "ds \<noteq> []" and len: "length (rom ow) = 8"
    and room: "card (rom_of ` set ds) < length arr"
    and xs: "sorted_wrt (\<lambda>a b. wire_bits b < wire_bits a) xs" "set xs = rom_of ` set ds"
  shows "\<exists>ow'. search_devices_loop bus_drv OW_CMD_SEARCHROM 0 owOK arr
                   (snd (ow_search_reset_raw ow))
                  = (owERRNODEV, length xs, xs @ drop (length xs) arr, ow')"
proof -
  from devices_loop_all [OF ds len room] obtain roms ow'
    where run: "search_devices_loop bus_drv OW_CMD_SEARCHROM 0 owOK arr
                  (snd (ow_search_reset_raw ow))
                  = (owERRNODEV, length roms, roms @ drop (length roms) arr, ow')"
      and srt: "sorted_wrt (\<lambda>a b. wire_bits b < wire_bits a) roms"
      and st: "set roms = rom_of ` set ds"
    by blast
  from strict_desc_unique [OF srt xs(1)] st xs(2) have "roms = xs" by simp
  with run show ?thesis by blast
qed

lemma search_all_sorted:
  assumes ds: "devices (arg ow) = ds" "ds \<noteq> []" and len: "length (rom ow) = 8"
    and xs: "sorted_wrt (\<lambda>a b. wire_bits b < wire_bits a) xs" "set xs = rom_of ` set ds"
  shows "search_all bus_drv ow = Some (owERRNODEV, xs)"
  using search_loop_sorted [OF assms] by (auto simp: search_all_def)

lemma rom_of_less:
  "wire_bits (rom_of v) < wire_bits (rom_of w)
     \<longleftrightarrow> (\<exists>e<64. (\<forall>k<e. bit v k = bit w k) \<and> \<not> bit v e \<and> bit w e)"
proof -
  have "(\<forall>k<e. bit v k = wire_bits (rom_of w) ! k) \<longleftrightarrow> (\<forall>k<e. bit v k = bit w k)"
    if "e < 64" for e
  proof -
    have "wire_bits (rom_of w) ! k = bit w k" if "k < e" for k
      using that \<open>e < 64\<close> by (simp add: dev_bits_nth)
    then show ?thesis by auto
  qed
  then show ?thesis
    unfolding dev_less_iff [OF length_wire_bits] by (auto simp: dev_bits_nth)
qed

lemma rom_of_values:
  "rom_of 0x10 = [0x10, 0x00, 0, 0, 0, 0, 0, 0]"
  "rom_of 0x110 = [0x10, 0x01, 0, 0, 0, 0, 0, 0]"
  "rom_of 1 = [0x01, 0, 0, 0, 0, 0, 0, 0]"
  "rom_of 2 = [0x02, 0, 0, 0, 0, 0, 0, 0]"
  "rom_of 3 = [0x03, 0, 0, 0, 0, 0, 0, 0]"
  by (simp_all add: rom_of_def upt_8 drop_bit_eq_div)

lemma less_two_devices: "wire_bits (rom_of 0x10) < wire_bits (rom_of 0x110)"
  unfolding rom_of_less
  by (rule exI [of _ 8]) (simp add: less_8_cases)

lemma less_three_devices:
  "wire_bits (rom_of 1) < wire_bits (rom_of 3)" "wire_bits (rom_of 2) < wire_bits (rom_of 1)"
  "wire_bits (rom_of 2) < wire_bits (rom_of 3)"
  unfolding rom_of_less
  by (rule exI [of _ 1]; simp)
     (rule exI [of _ 0]; simp)+

lemma search_all_two_devices:
  "search_all bus_drv (bus_session [0x10, 0x110])
     = Some (owERRNODEV, [[0x10, 0x01, 0, 0, 0, 0, 0, 0], [0x10, 0x00, 0, 0, 0, 0, 0, 0]])"
proof -
  have "search_all bus_drv (bus_session [0x10, 0x110])
          = Some (owERRNODEV, [rom_of 0x110, rom_of 0x10])"
    by (rule search_all_sorted [where ds = "[0x10, 0x110]"])
       (auto simp: bus_session_def less_two_devices)
  then show ?thesis by (simp add: rom_of_values)
qed

lemma search_all_three_devices:
  "search_all bus_drv (bus_session [1, 2, 3])
     = Some (owERRNODEV, [[0x03, 0, 0, 0, 0, 0, 0, 0], [0x01, 0, 0, 0, 0, 0, 0, 0],
                          [0x02, 0, 0, 0, 0, 0, 0, 0]])"
proof -
  have "search_all bus_drv (bus_session [1, 2, 3])
          = Some (owERRNODEV, [rom_of 3, rom_of 1, rom_of 2])"
    by (rule search_all_sorted [where ds = "[1, 2, 3]"])
       (auto simp: bus_session_def less_three_devices)
  then show ?thesis by (simp add: rom_of_values)
qed

lemma le64_values:
  "le64 [0x10, 0x01, 0, 0, 0, 0, 0, 0] = 0x110" "le64 [0x10, 0x00, 0, 0, 0, 0, 0, 0] = 0x10"
  "le64 [0x03, 0, 0, 0, 0, 0, 0, 0] = 3" "le64 [0x01, 0, 0, 0, 0, 0, 0, 0] = 1"
  "le64 [0x02, 0, 0, 0, 0, 0, 0, 0] = 2"
  by (simp_all add: le64_def)

text \<open>
  C2, as the code has it. Over one complete enumeration of a non-empty set of slaves on
  the simulated bus (a search reset followed by search calls until one does not return
  \<open>owOK\<close>), the call that ends the enumeration returns \<open>owERRNODEV\<close>, every slave's ROM is
  returned, and the ROMs returned by successive calls are strictly decreasing when their
  bits are compared in the order of transmission, the first bit transmitted weighing
  most. For the two slaves 10 00 .. and 10 01 .. the first call returns 10 01 .., the
  second 10 00 .., and the third \<open>owERRNODEV\<close>.
\<close>

theorem search_enumeration_order:
  "(devices (arg ow) = ds \<and> ds \<noteq> [] \<and> length (rom ow) = 8 \<longrightarrow>
      (\<exists>roms. search_all bus_drv ow = Some (owERRNODEV, roms)
         \<and> sorted_wrt (\<lambda>a b. wire_bits b < wire_bits a) roms
         \<and> set roms = rom_of ` set ds))
   \<and> search_all bus_drv (bus_session [0x10, 0x110])
       = Some (owERRNODEV, [[0x10, 0x01, 0, 0, 0, 0, 0, 0], [0x10, 0x00, 0, 0, 0, 0, 0, 0]])"
proof (intro conjI impI)
  assume a: "devices (arg ow) = ds \<and> ds \<noteq> [] \<and> length (rom ow) = 8"
  then have ds: "devices (arg ow) = ds" "ds \<noteq> []" and len: "length (rom ow) = 8"
    by simp_all
  from enumerate_all [OF ds len] obtain roms ow'
    where "search_cb_loop bus_drv OW_CMD_SEARCHROM collect_visitor 0
             (snd (ow_search_reset_raw ow)) [] = Some (owERRNODEV, length roms, ow', roms)"
      and "sorted_wrt (\<lambda>a b. wire_bits b < wire_bits a) roms"
      and "set roms = rom_of ` set ds"
    by blast
  then show "\<exists>roms. search_all bus_drv ow = Some (owERRNODEV, roms)
         \<and> sorted_wrt (\<lambda>a b. wire_bits b < wire_bits a) roms
         \<and> set roms = rom_of ` set ds"
    by (auto simp: search_all_def)
next
  show "search_all bus_drv (bus_session [0x10, 0x110])
       = Some (owERRNODEV, [[0x10, 0x01, 0, 0, 0, 0, 0, 0], [0x10, 0x00, 0, 0, 0, 0, 0, 0]])"
    by (rule search_all_two_devices)
qed

theorem search_enumeration_order_witness:
  "devices (arg (bus_session [1, 2, 3])) = [1, 2, 3] \<and> [1, 2, 3] \<noteq> ([] :: 64 word list)
   \<and> length (rom (bus_session [1, 2, 3])) = 8
   \<and> (\<exists>roms. search_all bus_drv (bus_session [1, 2, 3]) = Some (owERRNODEV, roms)
         \<and> sorted_wrt (\<lambda>a b. wire_bits b < wire_bits a) roms
         \<and> set roms = rom_of ` set [1, 2, 3])"
proof -
  have h: "devices (arg (bus_session [1, 2, 3])) = [1, 2, 3]
             \<and> [1, 2, 3] \<noteq> ([] :: 64 word list)
             \<and> length (rom (bus_session [1, 2, 3])) = 8"
    by (simp add: bus_session_def)
  from search_enumeration_order [of "bus_session [1, 2, 3]" "[1, 2, 3]"] h
  show ?thesis by blast
qed

text \<open>
  Compared as little-endian integers the ROMs returned are not increasing: for the two
  slaves of the claim the first ROM returned is 0x110 and the second 0x10. They are not
  decreasing either: the slaves 1, 2 and 3 are returned in the order 3, 1, 2.
\<close>

theorem search_enumeration_order_counterexample:
  "search_all bus_drv (bus_session [0x10, 0x110])
     = Some (owERRNODEV, [[0x10, 0x01, 0, 0, 0, 0, 0, 0], [0x10, 0x00, 0, 0, 0, 0, 0, 0]])
   \<and> \<not> le64 [0x10, 0x01, 0, 0, 0, 0, 0, 0] < le64 [0x10, 0x00, 0, 0, 0, 0, 0, 0]
   \<and> search_all bus_drv (bus_session [1, 2, 3])
     = Some (owERRNODEV, [[0x03, 0, 0, 0, 0, 0, 0, 0], [0x01, 0, 0, 0, 0, 0, 0, 0],
                          [0x02, 0, 0, 0, 0, 0, 0, 0]])
   \<and> \<not> le64 [0x03, 0, 0, 0, 0, 0, 0, 0] < le64 [0x01, 0, 0, 0, 0, 0, 0, 0]
   \<and> le64 [0x01, 0, 0, 0, 0, 0, 0, 0] < le64 [0x02, 0, 0, 0, 0, 0, 0, 0]"
  using search_all_two_devices search_all_three_devices
  by (simp add: le64_values)

section \<open>Batch search and the no-device result\<close>

lemma search_devices_loop_first:
  assumes "ow_search_with_command_raw drv cmd ow = (res, r, ow1)" and "res \<noteq> owOK"
    and "rom_id_arr \<noteq> []"
  shows "search_devices_loop drv cmd 0 res0 rom_id_arr ow
           = (res, 0, (case r of None \<Rightarrow> rom_id_arr | Some x \<Rightarrow> rom_id_arr[0 := x]), ow1)"
  using assms by (simp add: search_devices_loop.simps [of drv cmd 0])

lemma search_cb_loop_first:
  assumes "ow_search_with_command_raw drv cmd ow = (res, r, ow1)" and "res \<noteq> owOK"
  shows "search_cb_loop drv cmd func i ow u = Some (res, i, ow1, u)"
  using assms by (subst search_cb_loop.simps) simp

lemma callback_first_nodev:
  assumes "ow_search_with_command_raw drv cmd (snd (ow_search_reset_raw ow))
             = (owERRNODEV, r, ow0)"
  shows "ow_search_with_command_callback drv cmd func ow u
           = Some (owOK, 0, fst (snd (func ow0 None 0 u)), snd (snd (func ow0 None 0 u)))"
  using search_cb_loop_first [OF assms, of func 0 u]
  by (simp add: ow_search_with_command_callback_def split: prod.splits)

lemmas bus_eval =
  send_bit_def ll_tx_rx_def ll_set_baudrate_def bus_drv_def rx_buf_def Let_def
  bus_session_def OW_FIRST_DEV_def OW_LAST_DEV_def OW_RESET_BYTE_def bus_slot_def bus_reset_def
  ow_search_with_command_raw_def ow_search_reset_raw_def ow_reset_raw_def
  ow_write_byte_ex_raw_def tr_prepare_def tr_collect_def upt_8 search_out_def search_bit_def
  search_byte_numeral

text \<open>
  An alarm search on a bus whose only slave is not in alarm state: the slave answers the
  reset, but no slave takes part in the search, and the first pass reads two 1 bits.
\<close>

lemma alarm_search_first:
  "ow_search_with_command_raw bus_drv OW_CMD_ALARMSEARCH
       (snd (ow_search_reset_raw (bus_session [0x10])))
     = (owERRNODEV, Some (replicate 8 0),
        \<lparr>rom = replicate 8 0, disrepancy = 0,
         arg = \<lparr>devices = [0x10], active = [0x10], baud = 115200, mode = Idle\<rparr>,
         calls = [SetBaudrate 9600, TxRx [0xF0], SetBaudrate 115200,
                  TxRx [0x00, 0x00, 0xFF, 0xFF, 0x00, 0xFF, 0xFF, 0xFF],
                  TxRx [0xFF], TxRx [0xFF]]\<rparr>)"
  by (simp add: bus_eval OW_CMD_ALARMSEARCH_def search_rom.simps [of _ _ 64])

text \<open>
  C7, as the code has it. With \<open>res\<close> the result the search loop ends with and the
  number of ROMs found: \<open>ow_search_with_command_callback\<close> replaces \<open>owERRNODEV\<close> by
  \<open>owOK\<close> whatever the number of ROMs found, and \<open>ow_search_devices_with_command_raw\<close>
  replaces it exactly when at least one ROM was found. So when the first underlying
  search returns \<open>owERRNODEV\<close>, the callback helper returns \<open>owOK\<close> with zero ROMs found,
  and the array helper returns \<open>owERRNODEV\<close>.
\<close>

theorem batch_search_nodev:
  "(search_cb_loop drv cmd func 0 (snd (ow_search_reset_raw ow)) u = Some (res, i, ow1, u1) \<longrightarrow>
      (\<exists>ow2 u2. ow_search_with_command_callback drv cmd func ow u
                  = Some (if res = owERRNODEV then owOK else res, i, ow2, u2)))
   \<and> (search_devices_loop drv cmd 0 owOK rom_id_arr (snd (ow_search_reset_raw ow))
        = (res', cnt, arr, ow1') \<longrightarrow>
      ow_search_devices_with_command_raw drv cmd rom_id_arr ow
        = (if res' = owERRNODEV \<and> 0 < cnt then owOK else res', cnt, arr, ow1'))
   \<and> (ow_search_with_command_raw drv cmd (snd (ow_search_reset_raw ow)) = (owERRNODEV, r, ow0)
        \<longrightarrow>
      (\<exists>ow2 u2. ow_search_with_command_callback drv cmd func ow u = Some (owOK, 0, ow2, u2))
      \<and> (rom_id_arr \<noteq> [] \<longrightarrow>
           (\<exists>arr0. ow_search_devices_with_command_raw drv cmd rom_id_arr ow
                     = (owERRNODEV, 0, arr0, ow0))))"
proof (intro conjI impI)
  assume "search_cb_loop drv cmd func 0 (snd (ow_search_reset_raw ow)) u = Some (res, i, ow1, u1)"
  then show "\<exists>ow2 u2. ow_search_with_command_callback drv cmd func ow u
                  = Some (if res = owERRNODEV then owOK else res, i, ow2, u2)"
    by (cases "func ow1 None i u1") (simp add: ow_search_with_command_callback_def)
next
  assume "search_devices_loop drv cmd 0 owOK rom_id_arr (snd (ow_search_reset_raw ow))
        = (res', cnt, arr, ow1')"
  then show "ow_search_devices_with_command_raw drv cmd rom_id_arr ow
        = (if res' = owERRNODEV \<and> 0 < cnt then owOK else res', cnt, arr, ow1')"
    by (simp add: ow_search_devices_with_command_raw_def ow_search_reset_raw_def)
next
  assume "ow_search_with_command_raw drv cmd (snd (ow_search_reset_raw ow))
            = (owERRNODEV, r, ow0)"
  from callback_first_nodev [OF this, of func u]
  show "\<exists>ow2 u2. ow_search_with_command_callback drv cmd func ow u = Some (owOK, 0, ow2, u2)"
    by simp
next
  assume first: "ow_search_with_command_raw drv cmd (snd (ow_search_reset_raw ow))
                   = (owERRNODEV, r, ow0)"
    and ne: "rom_id_arr \<noteq> []"
  from search_devices_loop_first [OF first _ ne, of owOK]
  show "\<exists>arr0. ow_search_devices_with_command_raw drv cmd rom_id_arr ow
                     = (owERRNODEV, 0, arr0, ow0)"
    by (simp add: ow_search_devices_with_command_raw_def ow_search_reset_raw_def)
qed

text \<open>
  Two runs of each helper on the simulated bus: an alarm search that finds no slave, and
  a search of the two slaves 10 00 .. and 10 01 .., with an array of three slots.
\<close>

theorem batch_search_nodev_witness:
  "(\<exists>ow2 u2. ow_search_with_command_callback bus_drv OW_CMD_ALARMSEARCH count_visitor
               (bus_session [0x10]) 0 = Some (owOK, 0, ow2, u2))
   \<and> (\<exists>arr ow1. ow_search_devices_with_command_raw bus_drv OW_CMD_ALARMSEARCH [[], []]
               (bus_session [0x10]) = (owERRNODEV, 0, arr, ow1))
   \<and> (\<exists>ow2 u2. ow_search_with_command_callback bus_drv OW_CMD_SEARCHROM collect_visitor
               (bus_session [0x10, 0x110]) [] = Some (owOK, 2, ow2, u2))
   \<and> (\<exists>ow1. ow_search_devices_with_command_raw bus_drv OW_CMD_SEARCHROM [[], [], []]
               (bus_session [0x10, 0x110])
             = (owOK, 2, [[0x10, 0x01, 0, 0, 0, 0, 0, 0], [0x10, 0x00, 0, 0, 0, 0, 0, 0], []],
                ow1))"
proof -
  note first = alarm_search_first
  have cb: "search_cb_loop bus_drv OW_CMD_ALARMSEARCH count_visitor 0
              (snd (ow_search_reset_raw (bus_session [0x10]))) (0 :: nat)
            = Some (owERRNODEV, 0,
                \<lparr>rom = replicate 8 0, disrepancy = 0,
                 arg = \<lparr>devices = [0x10], active = [0x10], baud = 115200, mode = Idle\<rparr>,
                 calls = [SetBaudrate 9600, TxRx [0xF0], SetBaudrate 115200,
                  TxRx [0x00, 0x00, 0xFF, 0xFF, 0x00, 0xFF, 0xFF, 0xFF],
                  TxRx [0xFF], TxRx [0xFF]]\<rparr>, 0)"
    by (rule search_cb_loop_first [OF first]) simp
  have dv: "search_devices_loop bus_drv OW_CMD_ALARMSEARCH 0 owOK [[], []]
              (snd (ow_search_reset_raw (bus_session [0x10])))
            = (owERRNODEV, 0, [replicate 8 0, []],
                \<lparr>rom = replicate 8 0, disrepancy = 0,
                 arg = \<lparr>devices = [0x10], active = [0x10], baud = 115200, mode = Idle\<rparr>,
                 calls = [SetBaudrate 9600, TxRx [0xF0], SetBaudrate 115200,
                  TxRx [0x00, 0x00, 0xFF, 0xFF, 0x00, 0xFF, 0xFF, 0xFF],
                  TxRx [0xFF], TxRx [0xFF]]\<rparr>)"
    using search_devices_loop_first [OF first, of "[[], []]" owOK] by simp
  have ne: "[[], []] \<noteq> ([] :: uint8_t list list)" by simp
  from batch_search_nodev [of bus_drv OW_CMD_ALARMSEARCH count_visitor "bus_session [0x10]"
      "0 :: nat" owERRNODEV 0 _ 0 "[[], []]" owERRNODEV 0 "[replicate 8 0, []]" _ _ _]
    cb dv first ne
  have alarm: "(\<exists>ow2 u2. ow_search_with_command_callback bus_drv OW_CMD_ALARMSEARCH
                   count_visitor (bus_session [0x10]) 0 = Some (owOK, 0, ow2, u2))
     \<and> (\<exists>arr ow1. ow_search_devices_with_command_raw bus_drv OW_CMD_ALARMSEARCH [[], []]
               (bus_session [0x10]) = (owERRNODEV, 0, arr, ow1))"
    by fastforce
  have two: "devices (arg (bus_session [0x10, 0x110])) = [0x10, 0x110]"
    "[0x10, 0x110] \<noteq> ([] :: 64 word list)" "length (rom (bus_session [0x10, 0x110])) = 8"
    by (simp_all add: bus_session_def)
  have srt: "sorted_wrt (\<lambda>a b. wire_bits b < wire_bits a) [rom_of 0x110, rom_of 0x10]"
    "set [rom_of 0x110, rom_of 0x10] = rom_of ` set [0x10, 0x110]"
    by (auto simp: less_two_devices)
  have room: "card (rom_of ` set [0x10, 0x110]) < length [[], [], [] :: uint8_t list]"
    by (simp add: rom_of_values)
  from search_loop_sorted [OF two srt] obtain owa where
    cb2: "search_cb_loop bus_drv OW_CMD_SEARCHROM collect_visitor 0
            (snd (ow_search_reset_raw (bus_session [0x10, 0x110]))) []
          = Some (owERRNODEV, 2, owa, [rom_of 0x110, rom_of 0x10])"
    by auto
  from devices_loop_sorted [OF two room srt] obtain owb where
    dv2: "search_devices_loop bus_drv OW_CMD_SEARCHROM 0 owOK [[], [], []]
            (snd (ow_search_reset_raw (bus_session [0x10, 0x110])))
          = (owERRNODEV, 2, [rom_of 0x110, rom_of 0x10, []], owb)"
    by auto
  from batch_search_nodev [of bus_drv OW_CMD_SEARCHROM collect_visitor
      "bus_session [0x10, 0x110]" "[]" owERRNODEV 2 owa "[rom_of 0x110, rom_of 0x10]"
      "[[], [], []]" owERRNODEV 2 "[rom_of 0x110, rom_of 0x10, []]" owb]
    cb2 dv2
  have found: "(\<exists>ow2 u2. ow_search_with_command_callback bus_drv OW_CMD_SEARCHROM
                   collect_visitor (bus_session [0x10, 0x110]) [] = Some (owOK, 2, ow2, u2))
     \<and> (\<exists>ow1. ow_search_devices_with_command_raw bus_drv OW_CMD_SEARCHROM [[], [], []]
               (bus_session [0x10, 0x110])
             = (owOK, 2, [[0x10, 0x01, 0, 0, 0, 0, 0, 0], [0x10, 0x00, 0, 0, 0, 0, 0, 0], []],
                ow1))"
    by (auto simp: rom_of_values)
  from alarm found show ?thesis by blast
qed

text \<open>
  The callback helper on that bus: the underlying search returns \<open>owERRNODEV\<close> and no
  ROM was found, yet the helper returns \<open>owOK\<close> (the visitor was called once, with the
  \<open>NULL\<close> ROM).
\<close>

theorem batch_search_nodev_counterexample:
  "fst (ow_search_with_command_raw bus_drv OW_CMD_ALARMSEARCH
          (snd (ow_search_reset_raw (bus_session [0x10])))) = owERRNODEV
   \<and> ow_search_with_command_callback bus_drv OW_CMD_ALARMSEARCH count_visitor
        (bus_session [0x10]) 0
      = Some (owOK, 0,
          \<lparr>rom = replicate 8 0, disrepancy = 0,
           arg = \<lparr>devices = [0x10], active = [0x10], baud = 115200, mode = Idle\<rparr>,
           calls = [SetBaudrate 9600, TxRx [0xF0], SetBaudrate 115200,
                    TxRx [0x00, 0x00, 0xFF, 0xFF, 0x00, 0xFF, 0xFF, 0xFF],
                    TxRx [0xFF], TxRx [0xFF]]\<rparr>, 1)"
  using alarm_search_first callback_first_nodev [OF alarm_search_first, of count_visitor 0]
  by (simp add: count_visitor_def)

end
